theory Spec2Isabelle
  imports Complex_Main "HOL-Library.Sublist" "HOL-Library.AList"
begin

section \<open>Request queue (requestQueue.ts) and its types (types/api.ts)\<close>

text \<open>
  JavaScript numbers that hold timestamps, priorities and counters are modelled as
  \<open>int\<close> or \<open>nat\<close>; delays and averages, which the source computes with
  \<open>Math.pow\<close> and \<open>/\<close>, are exact rationals. Event listeners (\<open>emit\<close>) only
  observe; the model has none registered, as after construction.
\<close>

datatype RequestStatus = PENDING | PROCESSING | COMPLETED | FAILED | RETRYING | CANCELLED

datatype ApiErrorType =
  RATE_LIMIT_EXCEEDED | NETWORK_ERROR | TIMEOUT | INVALID_REQUEST | SERVER_ERROR | UNKNOWN

record RetryPolicy =
  maxRetries :: int
  retryDelay :: rat
  useExponentialBackoff :: bool
  maxRetryDelay :: rat

text \<open>An \<open>Error\<close> object seen through the cast \<open>error as ApiError\<close>: the message
  and the fields the classification writes.\<close>

record ApiError =
  message :: string
  etype :: "ApiErrorType option"
  retryable :: "bool option"
  retryAfter :: "rat option"

record ('req, 'res) QueueItem =
  qid :: string
  request :: 'req
  status :: RequestStatus
  createdAt :: int
  startedAt :: "int option"
  completedAt :: "int option"
  retryCount :: nat
  retryPolicy :: RetryPolicy
  priority :: int
  error :: "ApiError option"
  result :: "'res option"

record QueueStats =
  totalProcessed :: nat
  totalFailed :: nat
  totalRetries :: nat
  averageProcessingTime :: rat

record ('req, 'res) RequestQueue =
  queue :: "('req, 'res) QueueItem list"
  processing :: "string set"
  isProcessing :: bool
  qstats :: QueueStats
  maxConcurrentRequests :: nat
  defaultRetryPolicy :: RetryPolicy

text \<open>\<open>options.retryPolicy\<close> is a \<open>Partial<RetryPolicy>\<close>: every field may be absent.\<close>

record PartialRetryPolicy =
  p_maxRetries :: "int option"
  p_retryDelay :: "rat option"
  p_useExponentialBackoff :: "bool option"
  p_maxRetryDelay :: "rat option"

record AddOptions =
  o_priority :: "int option"
  o_retryPolicy :: "PartialRetryPolicy option"
  o_timeout :: "int option"

definition DEFAULT_RETRY_POLICY :: RetryPolicy where
  "DEFAULT_RETRY_POLICY =
     \<lparr>maxRetries = 3, retryDelay = 1000, useExponentialBackoff = True, maxRetryDelay = 30000\<rparr>"

definition emptyStats :: QueueStats where
  "emptyStats = \<lparr>totalProcessed = 0, totalFailed = 0, totalRetries = 0, averageProcessingTime = 0\<rparr>"

text \<open>The constructor: an empty queue; \<open>startProcessing\<close> sets \<open>isProcessing\<close>, and
  the first iteration of its loop finds no item.\<close>

definition newRequestQueue :: "nat \<Rightarrow> RetryPolicy \<Rightarrow> ('req, 'res) RequestQueue" where
  "newRequestQueue maxc pol =
     \<lparr>queue = [], processing = {}, isProcessing = True, qstats = emptyStats,
      maxConcurrentRequests = maxc, defaultRetryPolicy = pol\<rparr>"

subsection \<open>Sorting\<close>

text \<open>The comparator of \<open>sortQueueByPriority\<close>.\<close>

definition compareItems :: "('req, 'res) QueueItem \<Rightarrow> ('req, 'res) QueueItem \<Rightarrow> int" where
  "compareItems a b =
     (if priority a \<noteq> priority b then priority a - priority b
      else createdAt a - createdAt b)"

text \<open>\<open>Array.prototype.sort\<close> is a stable sort by the comparator (ECMAScript 2019):
  the elements are inserted in array order, each one after every element it does not
  precede, so that elements the comparator does not separate keep their order.\<close>

fun insertBy :: "('a \<Rightarrow> 'a \<Rightarrow> int) \<Rightarrow> 'a \<Rightarrow> 'a list \<Rightarrow> 'a list" where
  "insertBy cmp x [] = [x]"
| "insertBy cmp x (y # ys) = (if cmp x y < 0 then x # y # ys else y # insertBy cmp x ys)"

definition sortBy :: "('a \<Rightarrow> 'a \<Rightarrow> int) \<Rightarrow> 'a list \<Rightarrow> 'a list" where
  "sortBy cmp xs = fold (insertBy cmp) xs []"

definition sortQueueByPriority :: "('req, 'res) QueueItem list \<Rightarrow> ('req, 'res) QueueItem list" where
  "sortQueueByPriority q = sortBy compareItems q"

subsection \<open>Enqueueing and waiting\<close>

definition mergePolicy :: "RetryPolicy \<Rightarrow> PartialRetryPolicy option \<Rightarrow> RetryPolicy" where
  "mergePolicy d po =
     (case po of
        None \<Rightarrow> d
      | Some p \<Rightarrow>
          \<lparr>maxRetries = (case p_maxRetries p of None \<Rightarrow> maxRetries d | Some v \<Rightarrow> v),
           retryDelay = (case p_retryDelay p of None \<Rightarrow> retryDelay d | Some v \<Rightarrow> v),
           useExponentialBackoff =
             (case p_useExponentialBackoff p of None \<Rightarrow> useExponentialBackoff d | Some v \<Rightarrow> v),
           maxRetryDelay = (case p_maxRetryDelay p of None \<Rightarrow> maxRetryDelay d | Some v \<Rightarrow> v)\<rparr>)"

definition noOptions :: AddOptions where
  "noOptions = \<lparr>o_priority = None, o_retryPolicy = None, o_timeout = None\<rparr>"

definition newQueueItem ::
  "RetryPolicy \<Rightarrow> string \<Rightarrow> int \<Rightarrow> 'req \<Rightarrow> AddOptions \<Rightarrow> ('req, 'res) QueueItem" where
  "newQueueItem dflt new_id now req opts =
     \<lparr>qid = new_id, request = req, status = PENDING, createdAt = now,
      startedAt = None, completedAt = None, retryCount = 0,
      retryPolicy = mergePolicy dflt (o_retryPolicy opts),
      priority = (case o_priority opts of None \<Rightarrow> 0 | Some p \<Rightarrow> p),
      error = None, result = None\<rparr>"

text \<open>\<open>addRequest\<close>: \<open>new_id\<close> is what \<open>generateId\<close> returned and \<open>now\<close> what
  \<open>Date.now()\<close> returned. The handler is passed on to \<open>waitForCompletion\<close> and
  is stored nowhere in the queue.\<close>

definition addRequest ::
  "string \<Rightarrow> int \<Rightarrow> 'req \<Rightarrow> ('req \<Rightarrow> 'res) \<Rightarrow> AddOptions \<Rightarrow>
   ('req, 'res) RequestQueue \<Rightarrow> ('req, 'res) RequestQueue" where
  "addRequest new_id now req handler opts s =
     s\<lparr>queue := sortQueueByPriority
                   (queue s @ [newQueueItem (defaultRetryPolicy s) new_id now req opts])\<rparr>"

text \<open>One run of \<open>checkCompletion\<close> inside \<open>waitForCompletion\<close>: how the promise
  settles, or that the check is scheduled again after 100 ms.\<close>

datatype 'res Settled =
  Resolved "'res option"
| RejectedNotFound
| RejectedFailed "ApiError option"
| RejectedCancelled
| CheckAgain

definition checkCompletion ::
  "string \<Rightarrow> ('req \<Rightarrow> 'res) \<Rightarrow> ('req, 'res) RequestQueue \<Rightarrow> 'res Settled" where
  "checkCompletion i handler s =
     (case find (\<lambda>q. qid q = i) (queue s) of
        None \<Rightarrow> RejectedNotFound
      | Some item \<Rightarrow>
          if status item = COMPLETED then Resolved (result item)
          else if status item = FAILED then RejectedFailed (error item)
          else if status item = CANCELLED then RejectedCancelled
          else CheckAgain)"

subsection \<open>Processing\<close>

text \<open>\<open>getNextPendingItem\<close> returns a reference to the first pending element of the
  array; the reference is its position.\<close>

fun firstIndex :: "('a \<Rightarrow> bool) \<Rightarrow> 'a list \<Rightarrow> nat option" where
  "firstIndex P [] = None"
| "firstIndex P (x # xs) =
     (if P x then Some 0 else map_option Suc (firstIndex P xs))"

definition getNextPendingItem :: "('req, 'res) RequestQueue \<Rightarrow> nat option" where
  "getNextPendingItem s = firstIndex (\<lambda>item. status item = PENDING) (queue s)"

definition updateStats :: "('req, 'res) QueueItem \<Rightarrow> QueueStats \<Rightarrow> QueueStats" where
  "updateStats item st =
     (let st1 = (case (startedAt item, completedAt item) of
                   (Some b, Some e) \<Rightarrow>
                     if b \<noteq> 0 \<and> e \<noteq> 0 then
                       st\<lparr>averageProcessingTime :=
                            (averageProcessingTime st * of_nat (totalProcessed st) + of_int (e - b))
                            / (of_nat (totalProcessed st) + 1)\<rparr>
                     else st
                 | _ \<Rightarrow> st);
          st2 = st1\<lparr>totalProcessed := totalProcessed st1 + 1\<rparr>;
          st3 = (if status item = FAILED then st2\<lparr>totalFailed := totalFailed st2 + 1\<rparr> else st2)
      in if retryCount item > 0 then st3\<lparr>totalRetries := totalRetries st3 + retryCount item\<rparr>
         else st3)"

text \<open>\<open>processRequest\<close> up to the \<open>requestStarted\<close> event: the item is marked as
  being processed. \<open>None\<close> is the early return for an id already in \<open>processing\<close>.\<close>

definition processRequestStart ::
  "nat \<Rightarrow> int \<Rightarrow> ('req, 'res) RequestQueue \<Rightarrow> ('req, 'res) RequestQueue option" where
  "processRequestStart i now s =
     (let item = queue s ! i in
      if qid item \<in> processing s then None
      else Some (s\<lparr>processing := insert (qid item) (processing s),
                   queue := (queue s)[i := item\<lparr>status := PROCESSING, startedAt := Some now\<rparr>]\<rparr>))"

text \<open>The \<open>try\<close> block and \<open>finally\<close>. The block assigns the state only; the
  source's comment reads "the handler is not called here, only the state is managed; a real
  implementation has to call the handler". Nothing in the block throws, so the
  \<open>catch\<close> branch is never entered.\<close>

definition processRequestFinish ::
  "nat \<Rightarrow> int \<Rightarrow> ('req, 'res) RequestQueue \<Rightarrow> ('req, 'res) RequestQueue" where
  "processRequestFinish i now s =
     (let item = (queue s ! i)\<lparr>status := COMPLETED, completedAt := Some now\<rparr> in
      s\<lparr>queue := (queue s)[i := item],
        qstats := updateStats item (qstats s),
        processing := processing s - {qid item}\<rparr>)"

definition processRequest ::
  "nat \<Rightarrow> int \<Rightarrow> int \<Rightarrow> ('req, 'res) RequestQueue \<Rightarrow> ('req, 'res) RequestQueue" where
  "processRequest i t_start t_done s =
     (case processRequestStart i t_start s of
        None \<Rightarrow> s
      | Some s1 \<Rightarrow> processRequestFinish i t_done s1)"

text \<open>One iteration of the \<open>while\<close> loop of \<open>startProcessing\<close>; the iterations are
  100 ms apart.\<close>

definition loopIteration ::
  "int \<Rightarrow> int \<Rightarrow> ('req, 'res) RequestQueue \<Rightarrow> ('req, 'res) RequestQueue" where
  "loopIteration t_start t_done s =
     (if isProcessing s then
        (if int (maxConcurrentRequests s) - int (card (processing s)) > 0 then
           (case getNextPendingItem s of
              None \<Rightarrow> s
            | Some i \<Rightarrow> processRequest i t_start t_done s)
         else s)
      else s)"

subsection \<open>Errors and retries\<close>

text \<open>\<open>String.prototype.includes\<close>.\<close>

fun str_includes :: "string \<Rightarrow> string \<Rightarrow> bool" where
  "str_includes [] pat = (pat = [])"
| "str_includes (c # cs) pat = (prefix pat (c # cs) \<or> str_includes cs pat)"

definition createApiError :: "ApiError \<Rightarrow> ApiError" where
  "createApiError err =
     (if str_includes (message err) ''429'' \<or> str_includes (message err) ''rate limit'' then
        err\<lparr>etype := Some RATE_LIMIT_EXCEEDED, retryable := Some True, retryAfter := Some 5000\<rparr>
      else if str_includes (message err) ''network'' \<or> str_includes (message err) ''fetch'' then
        err\<lparr>etype := Some NETWORK_ERROR, retryable := Some True\<rparr>
      else if str_includes (message err) ''timeout'' then
        err\<lparr>etype := Some TIMEOUT, retryable := Some True\<rparr>
      else
        err\<lparr>etype := Some UNKNOWN, retryable := Some False\<rparr>)"

text \<open>\<open>Math.pow(2, e)\<close> for an integer exponent.\<close>

definition pow2 :: "int \<Rightarrow> rat" where
  "pow2 e = (if 0 \<le> e then 2 ^ nat e else 1 / 2 ^ nat (- e))"

definition calculateRetryDelay :: "('req, 'res) QueueItem \<Rightarrow> rat" where
  "calculateRetryDelay item =
     (let pol = retryPolicy item; delay = retryDelay pol in
      if useExponentialBackoff pol then
        min (delay * pow2 (int (retryCount item) - 1)) (maxRetryDelay pol)
      else delay)"

text \<open>\<open>handleRequestError\<close> on the item and the statistics: the new item, the new
  statistics and, on the retry branch, the delay given to \<open>setTimeout\<close>.\<close>

definition handleRequestError ::
  "('req, 'res) QueueItem \<Rightarrow> ApiError \<Rightarrow> int \<Rightarrow> QueueStats \<Rightarrow>
   ('req, 'res) QueueItem \<times> QueueStats \<times> rat option" where
  "handleRequestError item0 err now st =
     (let apiError = createApiError err;
          item = item0\<lparr>error := Some apiError\<rparr> in
      if int (retryCount item) < maxRetries (retryPolicy item) \<and> retryable apiError = Some True then
        (let item1 = item\<lparr>status := RETRYING, retryCount := retryCount item + 1\<rparr>
         in (item1, st, Some (calculateRetryDelay item1)))
      else
        (let item1 = item\<lparr>status := FAILED, completedAt := Some now\<rparr>
         in (item1, updateStats item1 st, None)))"

text \<open>The callback given to \<open>setTimeout\<close> on the retry branch, on the item (the queue
  is sorted again afterwards).\<close>

definition retryTimerFired :: "('req, 'res) QueueItem \<Rightarrow> ('req, 'res) QueueItem" where
  "retryTimerFired item = item\<lparr>status := PENDING\<rparr>"

subsection \<open>Cancelling\<close>

text \<open>\<open>cancelRequest\<close>: the new queue and the returned boolean.\<close>

definition cancelRequest ::
  "string \<Rightarrow> int \<Rightarrow> ('req, 'res) RequestQueue \<Rightarrow> ('req, 'res) RequestQueue \<times> bool" where
  "cancelRequest i now s =
     (case firstIndex (\<lambda>q. qid q = i) (queue s) of
        None \<Rightarrow> (s, False)
      | Some k \<Rightarrow>
          if status (queue s ! k) = COMPLETED then (s, False)
          else (s\<lparr>queue := (queue s)[k := (queue s ! k)\<lparr>status := CANCELLED,
                                                       completedAt := Some now\<rparr>]\<rparr>, True))"


subsection \<open>The remaining operations\<close>

definition clear :: "('req, 'res) RequestQueue \<Rightarrow> ('req, 'res) RequestQueue" where
  "clear s = s\<lparr>queue := [], processing := {}, qstats := emptyStats\<rparr>"

definition stop :: "('req, 'res) RequestQueue \<Rightarrow> ('req, 'res) RequestQueue" where
  "stop s = s\<lparr>isProcessing := False\<rparr>"

text \<open>\<open>start\<close> calls \<open>startProcessing\<close>, which returns at once when the loop is
  running; otherwise it sets \<open>isProcessing\<close> and runs the first iteration of the loop
  before it first waits.\<close>

definition start :: "int \<Rightarrow> int \<Rightarrow> ('req, 'res) RequestQueue \<Rightarrow> ('req, 'res) RequestQueue" where
  "start t_start t_done s =
     (if isProcessing s then s
      else loopIteration t_start t_done (s\<lparr>isProcessing := True\<rparr>))"

text \<open>The \<open>catch\<close> branch of \<open>processRequest\<close> on the queue, for a \<open>try\<close> block that
  throws \<open>err\<close>, and the \<open>finally\<close> block, which runs one microtask later in that case.\<close>

definition processRequestCatch ::
  "nat \<Rightarrow> ApiError \<Rightarrow> int \<Rightarrow> ('req, 'res) RequestQueue \<Rightarrow> ('req, 'res) RequestQueue \<times> rat option" where
  "processRequestCatch i err now s =
     (case handleRequestError (queue s ! i) err now (qstats s) of
        (item, st, d) \<Rightarrow> (s\<lparr>queue := (queue s)[i := item], qstats := st\<rparr>, d))"

definition processRequestFinally ::
  "string \<Rightarrow> ('req, 'res) RequestQueue \<Rightarrow> ('req, 'res) RequestQueue" where
  "processRequestFinally ident s = s\<lparr>processing := processing s - {ident}\<rparr>"

text \<open>The retry timer's callback on the queue, for the item now at position \<open>k\<close>.\<close>

definition retryReentry :: "nat \<Rightarrow> ('req, 'res) RequestQueue \<Rightarrow> ('req, 'res) RequestQueue" where
  "retryReentry k s =
     s\<lparr>queue := sortQueueByPriority ((queue s)[k := retryTimerFired (queue s ! k)])\<rparr>"

text \<open>An item whose retry timer has fired and which the loop has admitted again.\<close>

definition readmitted :: "('req, 'res) QueueItem \<Rightarrow> int \<Rightarrow> ('req, 'res) QueueItem" where
  "readmitted item now = (retryTimerFired item)\<lparr>status := PROCESSING, startedAt := Some now\<rparr>"

subsection \<open>Reachable states\<close>

text \<open>
  JavaScript runs every operation of the queue to its end before the next one starts, so
  the states between operations are those built from the constructor by the operations.
  The rules \<open>r_catch\<close>, \<open>r_finally\<close> and \<open>r_retry\<close> add the states of a
  \<open>processRequest\<close> whose \<open>try\<close> block throws; as the block is written they never
  arise, and every state of the actual queue is reachable without them.
\<close>

definition slotFree :: "('req, 'res) RequestQueue \<Rightarrow> bool" where
  "slotFree s = (int (maxConcurrentRequests s) - int (card (processing s)) > 0)"

inductive reachable :: "('req, 'res) RequestQueue \<Rightarrow> bool" where
  r_new: "reachable (newRequestQueue maxc pol)"
| r_add: "reachable s \<Longrightarrow> reachable (addRequest new_id now req handler opts s)"
| r_cancel: "reachable s \<Longrightarrow> reachable (fst (cancelRequest i now s))"
| r_loop: "reachable s \<Longrightarrow> reachable (loopIteration t1 t2 s)"
| r_clear: "reachable s \<Longrightarrow> reachable (clear s)"
| r_stop: "reachable s \<Longrightarrow> reachable (stop s)"
| r_start: "reachable s \<Longrightarrow> reachable (start t1 t2 s)"
| r_catch: "reachable s \<Longrightarrow> isProcessing s \<Longrightarrow> slotFree s \<Longrightarrow> getNextPendingItem s = Some i \<Longrightarrow>
            processRequestStart i t s = Some s1 \<Longrightarrow>
            reachable (fst (processRequestCatch i err now s1))"
| r_finally: "reachable s \<Longrightarrow> reachable (processRequestFinally ident s)"
| r_retry: "reachable s \<Longrightarrow> k < length (queue s) \<Longrightarrow> reachable (retryReentry k s)"

text \<open>The instants at which the queue can be looked at: between operations, and inside
  \<open>processRequest\<close> when the \<open>requestStarted\<close> event is emitted.\<close>

inductive instant :: "('req, 'res) RequestQueue \<Rightarrow> bool" where
  between: "reachable s \<Longrightarrow> instant s"
| within: "reachable s \<Longrightarrow> isProcessing s \<Longrightarrow> slotFree s \<Longrightarrow> getNextPendingItem s = Some i \<Longrightarrow>
           processRequestStart i t s = Some s1 \<Longrightarrow> instant s1"

definition terminal :: "RequestStatus \<Rightarrow> bool" where
  "terminal st = (st = COMPLETED \<or> st = FAILED \<or> st = CANCELLED)"

text \<open>The order of the pending items: priority ascending, then \<open>createdAt\<close> ascending.\<close>

definition precedes :: "('req, 'res) QueueItem \<Rightarrow> ('req, 'res) QueueItem \<Rightarrow> bool" where
  "precedes a b =
     (priority a < priority b \<or> (priority a = priority b \<and> createdAt a \<le> createdAt b))"

definition processingCount :: "('req, 'res) RequestQueue \<Rightarrow> nat" where
  "processingCount s = length (filter (\<lambda>item. status item = PROCESSING) (queue s))"


subsection \<open>The sibling services (geminiService.ts, ollamaService.ts)\<close>

text \<open>\<open>GeminiService.calculateRetryDelay\<close>; \<open>base\<close> is
  \<open>getConfig().RATE_LIMIT.RETRY_DELAY_MS\<close>. A \<open>retryAfter\<close> of \<open>0\<close> is falsy.\<close>

definition calculateRetryDelay_gemini :: "rat \<Rightarrow> int \<Rightarrow> rat option \<Rightarrow> rat" where
  "calculateRetryDelay_gemini base attempt ra =
     (case ra of
        Some r \<Rightarrow> if r \<noteq> 0 then r else min (base * pow2 attempt) 30000
      | None \<Rightarrow> min (base * pow2 attempt) 30000)"

text \<open>\<open>toLowerCase\<close> on the ASCII letters, which is all the patterns below contain.\<close>

definition lowerChar :: "char \<Rightarrow> char" where
  "lowerChar c =
     (if 65 \<le> (of_char c :: nat) \<and> (of_char c :: nat) \<le> 90
      then char_of ((of_char c :: nat) + 32) else c)"

definition toLowerCase :: "string \<Rightarrow> string" where
  "toLowerCase str = map lowerChar str"

text \<open>\<open>OllamaService.getErrorType\<close> and \<open>OllamaService.isRetryableError\<close>.\<close>

definition getErrorType_ollama :: "ApiError \<Rightarrow> ApiErrorType" where
  "getErrorType_ollama err =
     (let m = toLowerCase (message err) in
      if str_includes m ''rate limit'' \<or> str_includes m ''429'' then RATE_LIMIT_EXCEEDED
      else if str_includes m ''network'' \<or> str_includes m ''fetch'' then NETWORK_ERROR
      else if str_includes m ''timeout'' then TIMEOUT
      else if str_includes m ''400'' \<or> str_includes m ''invalid'' then INVALID_REQUEST
      else if str_includes m ''500'' \<or> str_includes m ''server'' then SERVER_ERROR
      else UNKNOWN)"

definition isRetryableError_ollama :: "ApiError \<Rightarrow> bool" where
  "isRetryableError_ollama err =
     (let m = toLowerCase (message err) in
      str_includes m ''network'' \<or> str_includes m ''timeout'' \<or>
      str_includes m ''500'' \<or> str_includes m ''server'')"

subsection \<open>Example inputs\<close>

definition rawError :: "string \<Rightarrow> ApiError" where
  "rawError msg = \<lparr>message = msg, etype = None, retryable = None, retryAfter = None\<rparr>"

definition exHandler :: "string \<Rightarrow> string" where
  "exHandler question = ''X is Y''"

definition exItem :: "(string, string) QueueItem" where
  "exItem = newQueueItem DEFAULT_RETRY_POLICY ''req_1'' 1 ''What is X?'' noOptions"

definition exQueue :: "(string, string) RequestQueue" where
  "exQueue = addRequest ''req_1'' 1 ''What is X?'' exHandler noOptions
               (newRequestQueue 1 DEFAULT_RETRY_POLICY)"

definition exStarted :: "(string, string) RequestQueue" where
  "exStarted = (case processRequestStart 0 5 exQueue of Some s \<Rightarrow> s | None \<Rightarrow> exQueue)"

definition exCompleted :: "(string, string) RequestQueue" where
  "exCompleted = loopIteration 5 6 exQueue"

definition exCancelled :: "(string, string) RequestQueue" where
  "exCancelled = fst (cancelRequest ''req_1'' 10 exQueue)"

definition prio :: "int \<Rightarrow> AddOptions" where
  "prio p = \<lparr>o_priority = Some p, o_retryPolicy = None, o_timeout = None\<rparr>"

text \<open>Four requests \<open>a\<close>, \<open>b\<close>, \<open>c\<close>, \<open>d\<close> with priorities 2, 0, 1, 0, enqueued in
  this order on a new queue with one slot.\<close>

definition fourRequests ::
  "string \<Rightarrow> string \<Rightarrow> string \<Rightarrow> string \<Rightarrow> int \<Rightarrow> int \<Rightarrow> int \<Rightarrow> int \<Rightarrow> 'req \<Rightarrow> ('req \<Rightarrow> 'res) \<Rightarrow>
   ('req, 'res) RequestQueue" where
  "fourRequests a b c d ta tb tc td req h =
     addRequest d td req h (prio 0)
       (addRequest c tc req h (prio 1)
         (addRequest b tb req h (prio 0)
           (addRequest a ta req h (prio 2) (newRequestQueue 1 DEFAULT_RETRY_POLICY))))"

text \<open>For every item of the queue, in order: its id, its status and when it was admitted.\<close>

definition stamps :: "('req, 'res) RequestQueue \<Rightarrow> (string \<times> RequestStatus \<times> int option) list" where
  "stamps s = map (\<lambda>x. (qid x, status x, startedAt x)) (queue s)"

section \<open>Cache service (cacheService.ts)\<close>

text \<open>
  The \<open>Map\<close> \<open>memoryCache\<close> is the list of its entries in insertion order, with
  distinct keys: \<open>Map.set\<close> on a stored key replaces the value in place and appends a new
  key at the end (\<open>AList.update\<close>), \<open>Map.delete\<close> drops the entry
  (\<open>AList.delete\<close>). Every operation takes the value \<open>now\<close> that \<open>Date.now()\<close>
  returns while it runs.
\<close>

record 'v CacheItem =
  c_key :: string
  c_data :: 'v
  c_createdAt :: int
  c_expiresAt :: int
  c_lastAccessedAt :: int
  c_accessCount :: nat
  c_size :: nat
  c_tags :: "string list"

record CacheStats =
  totalItems :: int
  hitCount :: nat
  missCount :: nat
  hitRate :: rat
  totalSize :: int
  averageItemSize :: rat
  expiredItems :: nat
  mostAccessedItem :: "string option"

record CacheConfig =
  enabled :: bool
  defaultTTL :: int
  maxSize :: int
  maxItems :: int
  cleanupInterval :: int
  useCompression :: bool

record 'v CacheService =
  memoryCache :: "(string \<times> 'v CacheItem) list"
  stats :: CacheStats
  config :: CacheConfig

text \<open>
  What the service asks of the JavaScript platform, as parameters of the model:
  \<open>stringifiedBytes d\<close> is \<open>new Blob([JSON.stringify(d)]).size\<close>, and
  \<open>jsonLength items\<close> is \<open>JSON.stringify(items).length\<close> for the array of the stored
  items; \<open>None\<close> when \<open>JSON.stringify\<close> throws.
\<close>

record 'v Platform =
  stringifiedBytes :: "'v \<Rightarrow> nat option"
  jsonLength :: "'v CacheItem list \<Rightarrow> nat option"

definition DEFAULT_CACHE_CONFIG :: CacheConfig where
  "DEFAULT_CACHE_CONFIG =
     \<lparr>enabled = True, defaultTTL = 24 * 60 * 60 * 1000, maxSize = 10 * 1024 * 1024,
      maxItems = 1000, cleanupInterval = 60 * 60 * 1000, useCompression = False\<rparr>"

definition MAX_STORAGE_SIZE :: nat where
  "MAX_STORAGE_SIZE = 5 * 1024 * 1024"

definition initialStats :: CacheStats where
  "initialStats =
     \<lparr>totalItems = 0, hitCount = 0, missCount = 0, hitRate = 0, totalSize = 0,
      averageItemSize = 0, expiredItems = 0, mostAccessedItem = None\<rparr>"

definition isExpired :: "int \<Rightarrow> 'v CacheItem \<Rightarrow> bool" where
  "isExpired now item = (now > c_expiresAt item)"

definition calculateSize :: "'v Platform \<Rightarrow> 'v \<Rightarrow> nat" where
  "calculateSize env d = (case stringifiedBytes env d of Some n \<Rightarrow> n | None \<Rightarrow> 0)"

definition wouldExceedStorageLimit :: "nat \<Rightarrow> 'v CacheService \<Rightarrow> bool" where
  "wouldExceedStorageLimit additionalSize c =
     (totalSize (stats c) + int additionalSize > maxSize (config c))"

definition updateHitRate :: "CacheStats \<Rightarrow> CacheStats" where
  "updateHitRate st =
     (let total = hitCount st + missCount st in
      st\<lparr>hitRate := (if total > 0 then of_nat (hitCount st) / of_nat total else 0)\<rparr>)"

text \<open>\<open>updateMostAccessedItem\<close>; the empty string is a falsy \<open>mostAccessedItem\<close>.\<close>

definition updateMostAccessedItem :: "string \<Rightarrow> nat \<Rightarrow> 'v CacheService \<Rightarrow> 'v CacheService" where
  "updateMostAccessedItem k accessCount c =
     (case mostAccessedItem (stats c) of
        None \<Rightarrow> c\<lparr>stats := (stats c)\<lparr>mostAccessedItem := Some k\<rparr>\<rparr>
      | Some m \<Rightarrow>
          if m = [] then c\<lparr>stats := (stats c)\<lparr>mostAccessedItem := Some k\<rparr>\<rparr>
          else (case map_of (memoryCache c) m of
                  None \<Rightarrow> c\<lparr>stats := (stats c)\<lparr>mostAccessedItem := Some k\<rparr>\<rparr>
                | Some currentItem \<Rightarrow>
                    if accessCount > c_accessCount currentItem
                    then c\<lparr>stats := (stats c)\<lparr>mostAccessedItem := Some k\<rparr>\<rparr>
                    else c))"

text \<open>The comparator of \<open>cleanupOldItems\<close>, the entries in the order of its sort, and
  \<open>Math.ceil(items.length * 0.2)\<close>: for a multiple of five the product in double
  precision is the exact fifth, and otherwise it is not near an integer, so the result is the
  ceiling of \<open>n / 5\<close>.\<close>

definition compareLastAccessed ::
  "(string \<times> 'v CacheItem) \<Rightarrow> (string \<times> 'v CacheItem) \<Rightarrow> int" where
  "compareLastAccessed a b = c_lastAccessedAt (snd a) - c_lastAccessedAt (snd b)"

definition sortedItems :: "'v CacheService \<Rightarrow> (string \<times> 'v CacheItem) list" where
  "sortedItems c = sortBy compareLastAccessed (memoryCache c)"

definition removeCount :: "nat \<Rightarrow> nat" where
  "removeCount n = (n + 4) div 5"

text \<open>The entry of \<open>k\<close> deleted and the statistics adjusted, as \<open>remove\<close> does before
  it saves.\<close>

definition dropItem :: "string \<Rightarrow> 'v CacheItem \<Rightarrow> 'v CacheService \<Rightarrow> 'v CacheService" where
  "dropItem k item c =
     (let st = stats c;
          items = totalItems st - 1;
          sz = totalSize st - int (c_size item)
      in c\<lparr>memoryCache := AList.delete k (memoryCache c),
           stats := st\<lparr>totalItems := items, totalSize := sz,
                       averageItemSize := (if items > 0 then of_int sz / of_int items else 0)\<rparr>\<rparr>)"

text \<open>A loop that runs a step for every element of a list, in order. \<open>None\<close> is a step
  that did not return.\<close>

fun forEach :: "('a \<Rightarrow> 's \<Rightarrow> 's option) \<Rightarrow> 'a list \<Rightarrow> 's \<Rightarrow> 's option" where
  "forEach f [] s = Some s"
| "forEach f (x # xs) s = (case f x s of None \<Rightarrow> None | Some s' \<Rightarrow> forEach f xs s')"

text \<open>
  \<open>remove\<close>, \<open>saveToStorage\<close> and \<open>cleanupOldItems\<close> call each other: \<open>remove\<close>
  saves, saving a snapshot longer than \<open>MAX_STORAGE_SIZE\<close> evicts, and evicting removes.
  The first argument bounds the depth of these calls; \<open>None\<close> is the bound reached. A
  depth above the number of stored entries is never reached (\<open>remove_fuel_total\<close>).
  The contents of \<open>localStorage\<close> are not part of the model; a \<open>JSON.stringify\<close> or
  \<open>setItem\<close> that throws is caught in \<open>saveToStorage\<close> and changes nothing.
\<close>

fun remove_fuel ::
    "nat \<Rightarrow> 'v Platform \<Rightarrow> string \<Rightarrow> 'v CacheService \<Rightarrow> ('v CacheService \<times> bool) option"
  and saveToStorage_fuel :: "nat \<Rightarrow> 'v Platform \<Rightarrow> 'v CacheService \<Rightarrow> 'v CacheService option"
  and cleanupOldItems_fuel :: "nat \<Rightarrow> 'v Platform \<Rightarrow> 'v CacheService \<Rightarrow> 'v CacheService option"
where
  "remove_fuel 0 env k c = None"
| "remove_fuel (Suc n) env k c =
     (case map_of (memoryCache c) k of
        None \<Rightarrow> Some (c, False)
      | Some item \<Rightarrow>
          (case saveToStorage_fuel n env (dropItem k item c) of
             None \<Rightarrow> None
           | Some c' \<Rightarrow> Some (c', True)))"
| "saveToStorage_fuel n env c =
     (case jsonLength env (map snd (memoryCache c)) of
        None \<Rightarrow> Some c
      | Some len \<Rightarrow> if len > MAX_STORAGE_SIZE then cleanupOldItems_fuel n env c else Some c)"
| "cleanupOldItems_fuel n env c =
     forEach (\<lambda>k c'. map_option fst (remove_fuel n env k c'))
       (map fst (take (removeCount (length (memoryCache c))) (sortedItems c))) c"

declare saveToStorage_fuel.simps [simp del] cleanupOldItems_fuel.simps [simp del]

definition fuel :: "'v CacheService \<Rightarrow> nat" where
  "fuel c = length (memoryCache c) + 2"

subsection \<open>The public operations\<close>

definition remove_cache ::
  "'v Platform \<Rightarrow> string \<Rightarrow> 'v CacheService \<Rightarrow> ('v CacheService \<times> bool) option" where
  "remove_cache env k c = remove_fuel (fuel c) env k c"

text \<open>\<open>get\<close>: the returned value (\<open>None\<close> is \<open>null\<close>) and the new state.\<close>

definition get_cache ::
  "'v Platform \<Rightarrow> string \<Rightarrow> int \<Rightarrow> 'v CacheService \<Rightarrow> ('v option \<times> 'v CacheService) option" where
  "get_cache env k now c =
     (case map_of (memoryCache c) k of
        None \<Rightarrow>
          Some (None, c\<lparr>stats := updateHitRate ((stats c)\<lparr>missCount := missCount (stats c) + 1\<rparr>)\<rparr>)
      | Some item \<Rightarrow>
          if isExpired now item then
            (case remove_fuel (fuel c) env k c of
               None \<Rightarrow> None
             | Some (c1, removed) \<Rightarrow>
                 Some (None,
                   c1\<lparr>stats := updateHitRate ((stats c1)\<lparr>missCount := missCount (stats c1) + 1,
                                                        expiredItems := expiredItems (stats c1) + 1\<rparr>)\<rparr>))
          else
            (let item' = item\<lparr>c_lastAccessedAt := now, c_accessCount := c_accessCount item + 1\<rparr>;
                 c1 = c\<lparr>memoryCache := AList.update k item' (memoryCache c)\<rparr>;
                 c2 = updateMostAccessedItem k (c_accessCount item') c1
             in Some (Some (c_data item),
                  c2\<lparr>stats := updateHitRate ((stats c2)\<lparr>hitCount := hitCount (stats c2) + 1\<rparr>)\<rparr>)))"

text \<open>\<open>ttl || this.config.defaultTTL\<close>: the default for an absent and for a zero
  \<open>ttl\<close>.\<close>

definition ttlOrDefault :: "int option \<Rightarrow> 'v CacheService \<Rightarrow> int" where
  "ttlOrDefault ttl c =
     (case ttl of None \<Rightarrow> defaultTTL (config c)
                | Some t \<Rightarrow> if t = 0 then defaultTTL (config c) else t)"

definition newCacheItem :: "string \<Rightarrow> 'v \<Rightarrow> int \<Rightarrow> int \<Rightarrow> nat \<Rightarrow> 'v CacheItem" where
  "newCacheItem k d now expiresAt sz =
     \<lparr>c_key = k, c_data = d, c_createdAt = now, c_expiresAt = expiresAt,
      c_lastAccessedAt = now, c_accessCount = 0, c_size = sz, c_tags = []\<rparr>"

text \<open>The statistics adjusted for the item and the item stored, as \<open>set\<close> does before it
  saves. Where \<open>totalItems\<close> is \<open>0\<close> the quotient is \<open>0\<close> here and not a number in
  JavaScript; this happens in no state with consistent statistics.\<close>

definition storeItem :: "string \<Rightarrow> 'v CacheItem \<Rightarrow> 'v CacheService \<Rightarrow> 'v CacheService" where
  "storeItem k item c =
     (let st = stats c;
          st1 = (case map_of (memoryCache c) k of
                   Some existingItem \<Rightarrow> st\<lparr>totalSize := totalSize st - int (c_size existingItem)\<rparr>
                 | None \<Rightarrow> st\<lparr>totalItems := totalItems st + 1\<rparr>);
          st2 = st1\<lparr>totalSize := totalSize st1 + int (c_size item)\<rparr>
      in c\<lparr>memoryCache := AList.update k item (memoryCache c),
           stats := st2\<lparr>averageItemSize := of_int (totalSize st2) / of_int (totalItems st2)\<rparr>\<rparr>)"

definition storeAndSave ::
  "nat \<Rightarrow> 'v Platform \<Rightarrow> string \<Rightarrow> 'v CacheItem \<Rightarrow> 'v CacheService \<Rightarrow>
   ('v CacheService \<times> bool) option" where
  "storeAndSave n env k item c =
     (case saveToStorage_fuel n env (storeItem k item c) of
        None \<Rightarrow> None
      | Some c' \<Rightarrow> Some (c', True))"

text \<open>\<open>set\<close>: the new state and the returned boolean.\<close>

definition set_cache ::
  "'v Platform \<Rightarrow> string \<Rightarrow> 'v \<Rightarrow> int option \<Rightarrow> int \<Rightarrow> 'v CacheService \<Rightarrow>
   ('v CacheService \<times> bool) option" where
  "set_cache env k d ttl now c =
     (let expiresAt = now + ttlOrDefault ttl c;
          sz = calculateSize env d;
          item = newCacheItem k d now expiresAt sz
      in if wouldExceedStorageLimit sz c then
           (case cleanupOldItems_fuel (fuel c) env c of
              None \<Rightarrow> None
            | Some c1 \<Rightarrow>
                if wouldExceedStorageLimit sz c1 then Some (c1, False)
                else storeAndSave (fuel c) env k item c1)
         else storeAndSave (fuel c) env k item c)"

definition clear_cache :: "'v CacheService \<Rightarrow> 'v CacheService" where
  "clear_cache c = c\<lparr>memoryCache := [], stats := initialStats\<rparr>"

definition has_cache :: "string \<Rightarrow> int \<Rightarrow> 'v CacheService \<Rightarrow> bool" where
  "has_cache k now c =
     (case map_of (memoryCache c) k of None \<Rightarrow> False | Some item \<Rightarrow> \<not> isExpired now item)"

definition size_cache :: "'v CacheService \<Rightarrow> nat" where
  "size_cache c = length (memoryCache c)"

text \<open>\<open>cleanup\<close>: \<open>Map.forEach\<close> visits the entries in insertion order and skips an
  entry deleted before its turn. The state of the loop is the cache and \<open>cleanedCount\<close>.\<close>

definition cleanupStep ::
  "nat \<Rightarrow> 'v Platform \<Rightarrow> int \<Rightarrow> string \<Rightarrow> 'v CacheService \<times> nat \<Rightarrow> ('v CacheService \<times> nat) option" where
  "cleanupStep n env now k s =
     (case map_of (memoryCache (fst s)) k of
        None \<Rightarrow> Some s
      | Some item \<Rightarrow>
          if isExpired now item then
            (case remove_fuel n env k (fst s) of
               None \<Rightarrow> None
             | Some (c', removed) \<Rightarrow> Some (c', snd s + 1))
          else Some s)"

definition cleanup_cache ::
  "'v Platform \<Rightarrow> int \<Rightarrow> 'v CacheService \<Rightarrow> ('v CacheService \<times> nat) option" where
  "cleanup_cache env now c =
     (case forEach (cleanupStep (fuel c) env now) (map fst (memoryCache c)) (c, 0) of
        None \<Rightarrow> None
      | Some (c', cleanedCount) \<Rightarrow>
          Some (c'\<lparr>stats := (stats c')\<lparr>expiredItems := expiredItems (stats c') + cleanedCount\<rparr>\<rparr>,
                cleanedCount))"

text \<open>\<open>updateStatsFromMemory\<close>, and the constructor: \<open>loadFromStorage\<close> for the array
  \<open>stored\<close> parsed from \<open>localStorage\<close> (\<open>None\<close>: nothing stored, or not an array),
  whose elements pass \<open>isValidCacheItem\<close>.\<close>

definition updateStatsFromMemory :: "'v CacheService \<Rightarrow> 'v CacheService" where
  "updateStatsFromMemory c =
     (let items = int (length (memoryCache c));
          sz = (\<Sum>e\<leftarrow>memoryCache c. int (c_size (snd e)))
      in c\<lparr>stats := (stats c)\<lparr>totalItems := items, totalSize := sz,
                                averageItemSize := (if items > 0 then of_int sz / of_int items else 0)\<rparr>\<rparr>)"

definition loadFromStorage :: "'v CacheItem list option \<Rightarrow> int \<Rightarrow> 'v CacheService \<Rightarrow> 'v CacheService" where
  "loadFromStorage stored now c =
     (case stored of
        None \<Rightarrow> c
      | Some items \<Rightarrow>
          updateStatsFromMemory
            (c\<lparr>memoryCache :=
                 fold (\<lambda>item m. if \<not> isExpired now item then AList.update (c_key item) item m else m)
                   items (memoryCache c)\<rparr>))"

definition newCacheService :: "CacheConfig \<Rightarrow> 'v CacheItem list option \<Rightarrow> int \<Rightarrow> 'v CacheService" where
  "newCacheService cfg stored now =
     loadFromStorage stored now \<lparr>memoryCache = [], stats = initialStats, config = cfg\<rparr>"

subsection \<open>Invariants and the order of eviction\<close>

text \<open>A \<open>Map\<close> holds a key once.\<close>

definition distinctKeys :: "'v CacheService \<Rightarrow> bool" where
  "distinctKeys c = distinct (map fst (memoryCache c))"

text \<open>The statistics agree with the stored entries.\<close>

definition statsConsistent :: "'v CacheService \<Rightarrow> bool" where
  "statsConsistent c =
     (totalItems (stats c) = int (length (memoryCache c)) \<and>
      totalSize (stats c) = (\<Sum>e\<leftarrow>memoryCache c. int (c_size (snd e))) \<and>
      averageItemSize (stats c) =
        (if totalItems (stats c) > 0
         then of_int (totalSize (stats c)) / of_int (totalItems (stats c)) else 0))"

definition consistent :: "'v CacheService \<Rightarrow> bool" where
  "consistent c = (distinctKeys c \<and> statsConsistent c)"

text \<open>Every entry of the second state is an entry of the first, and the counters that
  \<open>remove\<close> does not touch.\<close>

definition submap :: "'v CacheService \<Rightarrow> 'v CacheService \<Rightarrow> bool" where
  "submap c c' = (\<forall>k x. map_of (memoryCache c') k = Some x \<longrightarrow> map_of (memoryCache c) k = Some x)"


text \<open>The entries in the order in which \<open>cleanupOldItems\<close> sorts them, the entries
  that are left when the first \<open>m\<close> of that order are gone, and a snapshot of entries that
  \<open>saveToStorage\<close> writes without evicting.\<close>

definition lastAccessed :: "(string \<times> 'v CacheItem) \<Rightarrow> int" where
  "lastAccessed e = c_lastAccessedAt (snd e)"

definition byLastAccessed :: "(string \<times> 'v CacheItem) list \<Rightarrow> (string \<times> 'v CacheItem) list" where
  "byLastAccessed xs = sortBy compareLastAccessed xs"

definition evictPrefix :: "nat \<Rightarrow> (string \<times> 'v CacheItem) list \<Rightarrow> (string \<times> 'v CacheItem) list" where
  "evictPrefix m xs = filter (\<lambda>e. e \<notin> set (take m (byLastAccessed xs))) xs"

definition snapshotFits :: "'v Platform \<Rightarrow> (string \<times> 'v CacheItem) list \<Rightarrow> bool" where
  "snapshotFits env xs =
     (case jsonLength env (map snd xs) of None \<Rightarrow> True | Some len \<Rightarrow> \<not> len > MAX_STORAGE_SIZE)"


abbreviation (input) ordered :: "(string \<times> 'v CacheItem) list \<Rightarrow> bool" where
  "ordered xs \<equiv> sorted_wrt (\<lambda>a b. lastAccessed a \<le> lastAccessed b) xs"

definition accessTimes :: "'v CacheService \<Rightarrow> (string \<times> int) list" where
  "accessTimes c = map (\<lambda>e. (fst e, c_lastAccessedAt (snd e))) (memoryCache c)"

subsection \<open>Example inputs for the cache\<close>

text \<open>
  A platform for caches of ASCII strings. The JSON text of such a string is the string in
  quotes, one byte per character. The JSON text of a stored item is counted as its key, its
  data and 140 characters for the field names and the numbers; the examples only use that the
  text of a snapshot is longer than a value it contains, and that a handful of short items
  stay far below \<open>MAX_STORAGE_SIZE\<close>.
\<close>

definition asciiPlatform :: "string Platform" where
  "asciiPlatform =
     \<lparr>stringifiedBytes = (\<lambda>d. Some (length d + 2)),
      jsonLength = (\<lambda>items. Some (2 + (\<Sum>i\<leftarrow>items. 140 + length (c_key i) + length (c_data i))))\<rparr>"


definition emptyCache :: "string CacheService" where
  "emptyCache = newCacheService DEFAULT_CACHE_CONFIG None 0"

text \<open>The cache after \<open>set('qa_1', 'X is Y')\<close> at time 1000 on the empty cache.\<close>

definition smallCache :: "string CacheService" where
  "smallCache =
     \<lparr>memoryCache = [(''qa_1'', newCacheItem ''qa_1'' ''X is Y'' 1000 86401000 8)],
      stats = initialStats\<lparr>totalItems := 1, totalSize := 8, averageItemSize := 8\<rparr>,
      config = DEFAULT_CACHE_CONFIG\<rparr>"

text \<open>A cache with \<open>maxSize = 100\<close> that holds five values of 20 bytes, all stored at
  time 1000; what the eviction sweep leaves of it; and the cache after a sixth value was
  stored at time 2000.\<close>

definition tieValue :: string where
  "tieValue = ''XXXXXXXXXXXXXXXXXX''"

definition tieConfig :: CacheConfig where
  "tieConfig = DEFAULT_CACHE_CONFIG\<lparr>maxSize := 100\<rparr>"

definition tieItem :: "string \<Rightarrow> string CacheItem" where
  "tieItem k = newCacheItem k tieValue 1000 86401000 20"

definition tieEntries :: "(string \<times> string CacheItem) list" where
  "tieEntries = [(''k1'', tieItem ''k1''), (''k2'', tieItem ''k2''), (''k3'', tieItem ''k3''),
                 (''k4'', tieItem ''k4''), (''k5'', tieItem ''k5'')]"

definition tieCacheWith :: "(string \<times> string CacheItem) list \<Rightarrow> string CacheService" where
  "tieCacheWith es =
     \<lparr>memoryCache = es,
      stats = initialStats\<lparr>totalItems := int (length es), totalSize := 20 * int (length es),
                           averageItemSize := (if es = [] then 0 else 20)\<rparr>,
      config = tieConfig\<rparr>"

definition tieCache :: "string CacheService" where
  "tieCache = tieCacheWith tieEntries"

definition tieSwept :: "string CacheService" where
  "tieSwept = tieCacheWith (drop 1 tieEntries)"

definition tieResult :: "string CacheService" where
  "tieResult = tieCacheWith (drop 1 tieEntries @ [(''k6'', newCacheItem ''k6'' tieValue 2000 86402000 20)])"



section \<open>Properties of the request queue\<close>

subsection \<open>Searching and sorting\<close>

lemma firstIndex_Some:
  "firstIndex P xs = Some k \<Longrightarrow> k < length xs \<and> P (xs ! k) \<and> (\<forall>j<k. \<not> P (xs ! j))"
proof (induction xs arbitrary: k)
  case Nil
  then show ?case by simp
next
  case (Cons x xs)
  show ?case
  proof (cases "P x")
    case True
    with Cons.prems show ?thesis by simp
  next
    case False
    with Cons.prems obtain k' where k': "firstIndex P xs = Some k'" "k = Suc k'"
      by auto
    from Cons.IH[OF k'(1)] False k'(2) show ?thesis
      by (auto simp: nth_Cons split: nat.splits)
  qed
qed

lemma firstIndex_None: "firstIndex P xs = None \<longleftrightarrow> (\<forall>x\<in>set xs. \<not> P x)"
  by (induction xs) auto

lemma set_insertBy: "set (insertBy cmp x xs) = insert x (set xs)"
  by (induction xs) auto

lemma set_fold_insertBy: "set (fold (insertBy cmp) xs acc) = set xs \<union> set acc"
  by (induction xs arbitrary: acc) (auto simp: set_insertBy)

lemma set_sortBy: "set (sortBy cmp xs) = set xs"
  by (simp add: sortBy_def set_fold_insertBy)

lemma compare_precedes:
  "compareItems a b < 0 \<Longrightarrow> precedes a b"
  "\<not> compareItems a b < 0 \<Longrightarrow> precedes b a"
  by (auto simp: compareItems_def precedes_def split: if_splits)

lemma precedes_trans: "precedes a b \<Longrightarrow> precedes b c \<Longrightarrow> precedes a c"
  by (auto simp: precedes_def)

lemma sorted_insertBy:
  "sorted_wrt precedes xs \<Longrightarrow> sorted_wrt precedes (insertBy compareItems x xs)"
proof (induction xs)
  case Nil
  then show ?case by simp
next
  case (Cons y ys)
  show ?case
  proof (cases "compareItems x y < 0")
    case True
    then have xy: "precedes x y" by (rule compare_precedes)
    with Cons.prems have "\<forall>z\<in>set ys. precedes x z"
      by (auto intro: precedes_trans)
    with True xy Cons.prems show ?thesis by simp
  next
    case False
    then have "precedes y x" by (rule compare_precedes)
    with False Cons show ?thesis by (auto simp: set_insertBy)
  qed
qed

lemma sorted_fold_insertBy:
  "sorted_wrt precedes acc \<Longrightarrow> sorted_wrt precedes (fold (insertBy compareItems) xs acc)"
  by (induction xs arbitrary: acc) (auto intro: sorted_insertBy)

lemma sorted_sortQueueByPriority: "sorted_wrt precedes (sortQueueByPriority q)"
  by (simp add: sortQueueByPriority_def sortBy_def sorted_fold_insertBy)

lemma set_sortQueueByPriority: "set (sortQueueByPriority q) = set q"
  by (simp add: sortQueueByPriority_def set_sortBy)

lemma sorted_update_same_key:
  assumes "sorted_wrt precedes xs" "priority y = priority (xs ! k)" "createdAt y = createdAt (xs ! k)"
  shows "sorted_wrt precedes (xs[k := y])"
proof -
  have "precedes (xs[k := y] ! i) (xs[k := y] ! j)" if "i < j" "j < length xs" for i j
  proof -
    from assms(1) that have "precedes (xs ! i) (xs ! j)"
      by (simp add: sorted_wrt_iff_nth_less)
    with assms(2,3) that show ?thesis
      by (cases "i = k"; cases "j = k"; simp add: precedes_def)
  qed
  then show ?thesis by (simp add: sorted_wrt_iff_nth_less)
qed

lemma handleRequestError_key:
  "handleRequestError item err now st = (item', st', d) \<Longrightarrow>
     priority item' = priority item \<and> createdAt item' = createdAt item \<and> status item' \<noteq> PROCESSING"
  by (auto simp: handleRequestError_def Let_def split: if_splits)

lemma processRequestStart_queue:
  "processRequestStart i t s = Some s1 \<Longrightarrow>
     queue s1 = (queue s)[i := (queue s ! i)\<lparr>status := PROCESSING, startedAt := Some t\<rparr>] \<and>
     processing s1 = insert (qid (queue s ! i)) (processing s) \<and>
     maxConcurrentRequests s1 = maxConcurrentRequests s \<and> qid (queue s ! i) \<notin> processing s"
  by (auto simp: processRequestStart_def Let_def split: if_splits)

lemma processRequest_queue:
  assumes "i < length (queue s)"
  shows "queue (processRequest i t1 t2 s) = queue s \<or>
   (\<exists>y. queue (processRequest i t1 t2 s) = (queue s)[i := y] \<and>
        priority y = priority (queue s ! i) \<and> createdAt y = createdAt (queue s ! i) \<and>
        status y = COMPLETED)"
  using assms
  by (auto simp: processRequest_def processRequestStart_def processRequestFinish_def Let_def)

lemma getNextPendingItem_Some:
  "getNextPendingItem s = Some i \<Longrightarrow> i < length (queue s) \<and> status (queue s ! i) = PENDING"
  by (auto simp: getNextPendingItem_def dest: firstIndex_Some)

lemma queue_loopIteration:
  "queue (loopIteration t1 t2 s) = queue s \<or>
   (\<exists>i y. queue (loopIteration t1 t2 s) = (queue s)[i := y] \<and>
        priority y = priority (queue s ! i) \<and> createdAt y = createdAt (queue s ! i) \<and>
        status y = COMPLETED)"
proof (cases "getNextPendingItem s")
  case None
  then show ?thesis by (simp add: loopIteration_def)
next
  case (Some i)
  with getNextPendingItem_Some[OF Some] processRequest_queue[of i s t1 t2] show ?thesis
    by (auto simp: loopIteration_def)
qed

lemma reachable_sorted: "reachable s \<Longrightarrow> sorted_wrt precedes (queue s)"
proof (induction rule: reachable.induct)
  case (r_new maxc pol)
  then show ?case by (simp add: newRequestQueue_def)
next
  case (r_add s new_id now req handler opts)
  then show ?case by (simp add: addRequest_def sorted_sortQueueByPriority)
next
  case (r_cancel s i now)
  then show ?case
    by (auto simp: cancelRequest_def split: option.splits intro!: sorted_update_same_key)
next
  case (r_loop s t1 t2)
  with queue_loopIteration[of t1 t2 s] show ?case
    by (auto intro!: sorted_update_same_key)
next
  case (r_clear s)
  then show ?case by (simp add: clear_def)
next
  case (r_stop s)
  then show ?case by (simp add: stop_def)
next
  case (r_start s t1 t2)
  with queue_loopIteration[of t1 t2 "s\<lparr>isProcessing := True\<rparr>"] show ?case
    by (auto simp: start_def intro!: sorted_update_same_key)
next
  case (r_catch s i t s1 err now)
  obtain item st d where h: "handleRequestError (queue s1 ! i) err now (qstats s1) = (item, st, d)"
    by (cases "handleRequestError (queue s1 ! i) err now (qstats s1)") auto
  from r_catch processRequestStart_queue[OF r_catch(5)]
  have s1: "sorted_wrt precedes (queue s1)"
    by (auto intro!: sorted_update_same_key)
  from handleRequestError_key[OF h] s1 h show ?case
    by (auto simp: processRequestCatch_def intro!: sorted_update_same_key)
next
  case (r_finally s ident)
  then show ?case by (simp add: processRequestFinally_def)
next
  case (r_retry s k)
  then show ?case by (simp add: retryReentry_def sorted_sortQueueByPriority)
qed

lemma first_pending_minimal:
  assumes "sorted_wrt precedes xs" "firstIndex (\<lambda>x. status x = PENDING) xs = Some i"
    and "y \<in> set xs" "status y = PENDING"
  shows "precedes (xs ! i) y"
proof -
  from assms(3) obtain j where j: "j < length xs" "xs ! j = y" by (auto simp: in_set_conv_nth)
  from firstIndex_Some[OF assms(2)] have i: "i < length xs" "\<forall>j<i. status (xs ! j) \<noteq> PENDING"
    by auto
  with j assms(4) have "i \<le> j" by (meson not_le)
  show ?thesis
  proof (cases "i = j")
    case True
    with j show ?thesis by (simp add: precedes_def)
  next
    case False
    with \<open>i \<le> j\<close> have "i < j" by simp
    with assms(1) j show ?thesis by (auto simp: sorted_wrt_iff_nth_less)
  qed
qed

lemma reachable_idle: "reachable s \<Longrightarrow> \<forall>x\<in>set (queue s). status x \<noteq> PROCESSING"
proof (induction rule: reachable.induct)
  case (r_new maxc pol)
  then show ?case by (simp add: newRequestQueue_def)
next
  case (r_add s new_id now req handler opts)
  then show ?case by (auto simp: addRequest_def set_sortQueueByPriority newQueueItem_def)
next
  case (r_cancel s i now)
  then show ?case
    by (auto simp: cancelRequest_def split: option.splits
             dest!: set_update_subset_insert[THEN subsetD])
next
  case (r_loop s t1 t2)
  with queue_loopIteration[of t1 t2 s] show ?case
    by (auto dest!: set_update_subset_insert[THEN subsetD])
next
  case (r_clear s)
  then show ?case by (simp add: clear_def)
next
  case (r_stop s)
  then show ?case by (simp add: stop_def)
next
  case (r_start s t1 t2)
  with queue_loopIteration[of t1 t2 "s\<lparr>isProcessing := True\<rparr>"] show ?case
    by (auto simp: start_def dest!: set_update_subset_insert[THEN subsetD])
next
  case (r_catch s i t s1 err now)
  obtain item st d where h: "handleRequestError (queue s1 ! i) err now (qstats s1) = (item, st, d)"
    by (cases "handleRequestError (queue s1 ! i) err now (qstats s1)") auto
  have q: "queue (fst (processRequestCatch i err now s1)) = (queue s)[i := item]"
    using h processRequestStart_queue[OF r_catch(5)] by (simp add: processRequestCatch_def)
  from handleRequestError_key[OF h] r_catch.IH show ?case unfolding q
    by (auto dest!: set_update_subset_insert[THEN subsetD])
next
  case (r_finally s ident)
  then show ?case by (simp add: processRequestFinally_def)
next
  case (r_retry s k)
  then show ?case
    by (auto simp: retryReentry_def set_sortQueueByPriority retryTimerFired_def
             dest!: set_update_subset_insert[THEN subsetD])
qed

lemma processRequest_processing:
  assumes "finite (processing s)" "i < length (queue s)"
  shows "finite (processing (processRequest i t1 t2 s)) \<and>
     card (processing (processRequest i t1 t2 s)) \<le> card (processing s) \<and>
     maxConcurrentRequests (processRequest i t1 t2 s) = maxConcurrentRequests s"
  using assms
  by (auto simp: processRequest_def processRequestStart_def processRequestFinish_def Let_def)

lemma reachable_slots:
  "reachable s \<Longrightarrow> finite (processing s) \<and> card (processing s) \<le> maxConcurrentRequests s"
proof (induction rule: reachable.induct)
  case (r_new maxc pol)
  then show ?case by (simp add: newRequestQueue_def)
next
  case (r_add s new_id now req handler opts)
  then show ?case by (simp add: addRequest_def)
next
  case (r_cancel s i now)
  then show ?case by (auto simp: cancelRequest_def split: option.splits)
next
  case (r_loop s t1 t2)
  show ?case
  proof (cases "getNextPendingItem s")
    case None
    with r_loop show ?thesis by (simp add: loopIteration_def)
  next
    case (Some i)
    with getNextPendingItem_Some[OF Some] r_loop.IH processRequest_processing[of s i t1 t2]
    show ?thesis by (auto simp: loopIteration_def)
  qed
next
  case (r_clear s)
  then show ?case by (simp add: clear_def)
next
  case (r_stop s)
  then show ?case by (simp add: stop_def)
next
  case (r_start s t1 t2)
  let ?s = "s\<lparr>isProcessing := True\<rparr>"
  show ?case
  proof (cases "getNextPendingItem ?s")
    case None
    with r_start show ?thesis by (simp add: start_def loopIteration_def)
  next
    case (Some i)
    with getNextPendingItem_Some[OF Some] r_start.IH processRequest_processing[of ?s i t1 t2]
    show ?thesis by (auto simp: start_def loopIteration_def)
  qed
next
  case (r_catch s i t s1 err now)
  from processRequestStart_queue[OF r_catch(5)] r_catch.IH r_catch(3)
  have "finite (processing s1) \<and> card (processing s1) \<le> maxConcurrentRequests s1"
    by (auto simp: slotFree_def)
  then show ?case by (auto simp: processRequestCatch_def split: prod.splits)
next
  case (r_finally s ident)
  then show ?case
    by (auto simp: processRequestFinally_def intro: le_trans[OF card_mono])
next
  case (r_retry s k)
  then show ?case by (simp add: retryReentry_def)
qed

lemma filter_none: "\<forall>x\<in>set xs. \<not> P x \<Longrightarrow> filter P xs = []"
  by (induction xs) auto

lemma filter_update_one:
  "length (filter P (xs[k := y])) \<le> Suc (length (filter P xs))"
proof (induction xs arbitrary: k)
  case Nil
  then show ?case by simp
next
  case (Cons x xs)
  show ?case
  proof (cases k)
    case 0
    then show ?thesis by simp
  next
    case (Suc n)
    with Cons.IH[of n] show ?thesis by simp
  qed
qed

lemma instant_cases:
  assumes "instant s"
  shows "(\<forall>x\<in>set (queue s). status x \<noteq> PROCESSING) \<and>
           card (processing s) \<le> maxConcurrentRequests s
         \<or> (\<exists>q0 i y. queue s = q0[i := y] \<and> (\<forall>x\<in>set q0. status x \<noteq> PROCESSING) \<and>
               1 \<le> maxConcurrentRequests s \<and> card (processing s) \<le> maxConcurrentRequests s)"
  using assms
proof (cases rule: instant.cases)
  case between
  with reachable_idle[OF between] reachable_slots[OF between] show ?thesis by simp
next
  case (within s0 i t)
  from processRequestStart_queue[OF within(5)] have
    q: "queue s = (queue s0)[i := (queue s0 ! i)\<lparr>status := PROCESSING, startedAt := Some t\<rparr>]"
    and p: "processing s = insert (qid (queue s0 ! i)) (processing s0)"
    and m: "maxConcurrentRequests s = maxConcurrentRequests s0" 
    and n: "qid (queue s0 ! i) \<notin> processing s0" by auto
  from within(3) have lt: "card (processing s0) < maxConcurrentRequests s0"
    by (simp add: slotFree_def)
  from reachable_slots[OF within(1)] n p have "card (processing s) = Suc (card (processing s0))"
    by simp
  with lt m have "card (processing s) \<le> maxConcurrentRequests s" "1 \<le> maxConcurrentRequests s"
    by simp_all
  with q reachable_idle[OF within(1)] show ?thesis by blast
qed


subsection \<open>Items that an operation leaves alone\<close>

lemma in_set_update_other:
  assumes "x \<in> set xs" "x \<noteq> xs ! k"
  shows "x \<in> set (xs[k := y])"
proof -
  from assms(1) obtain j where j: "j < length xs" "xs ! j = x" by (auto simp: in_set_conv_nth)
  with assms(2) have "j \<noteq> k" by auto
  with j have "xs[k := y] ! j = x" "j < length (xs[k := y])" by auto
  then show ?thesis by (metis nth_mem)
qed

lemma addRequest_keeps: "x \<in> set (queue s) \<Longrightarrow> x \<in> set (queue (addRequest i now req h opts s))"
  by (simp add: addRequest_def set_sortQueueByPriority)

lemma processRequest_keeps:
  assumes "x \<in> set (queue s)" "status x \<noteq> PENDING" "status (queue s ! i) = PENDING"
  shows "x \<in> set (queue (processRequest i t1 t2 s))"
proof (cases "processRequestStart i t1 s")
  case None
  with assms show ?thesis by (simp add: processRequest_def)
next
  case (Some s1)
  from assms have ne: "x \<noteq> queue s ! i" by auto
  from Some have q1: "queue s1 = (queue s)[i := (queue s ! i)\<lparr>status := PROCESSING, startedAt := Some t1\<rparr>]"
    by (auto simp: processRequestStart_def Let_def split: if_splits)
  have "queue (processRequest i t1 t2 s) = (queue s1)[i := (queue s1 ! i)\<lparr>status := COMPLETED, completedAt := Some t2\<rparr>]"
    using Some by (simp add: processRequest_def processRequestFinish_def Let_def)
  also have "\<dots> = (queue s)[i := (queue s1 ! i)\<lparr>status := COMPLETED, completedAt := Some t2\<rparr>]"
    by (simp add: q1)
  finally show ?thesis using in_set_update_other[OF assms(1) ne] by simp
qed

lemma loopIteration_keeps:
  assumes "x \<in> set (queue s)" "status x \<noteq> PENDING"
  shows "x \<in> set (queue (loopIteration t1 t2 s))"
proof (cases "getNextPendingItem s")
  case None
  with assms show ?thesis by (simp add: loopIteration_def)
next
  case (Some i)
  then have "status (queue s ! i) = PENDING"
    by (simp add: getNextPendingItem_Some)
  from processRequest_keeps[OF assms this] Some assms(1) show ?thesis
    by (simp add: loopIteration_def)
qed

lemma cancelRequest_keeps:
  assumes "x \<in> set (queue s)" "status x = COMPLETED"
  shows "x \<in> set (queue (fst (cancelRequest j now s)))"
proof (cases "firstIndex (\<lambda>q. qid q = j) (queue s)")
  case None
  with assms show ?thesis by (simp add: cancelRequest_def)
next
  case (Some k)
  show ?thesis
  proof (cases "status (queue s ! k) = COMPLETED")
    case True
    with Some assms show ?thesis by (simp add: cancelRequest_def)
  next
    case False
    with assms have "x \<noteq> queue s ! k" by auto
    from in_set_update_other[OF assms(1) this] Some False show ?thesis
      by (simp add: cancelRequest_def)
  qed
qed



subsection \<open>Four requests with priorities 2, 0, 1, 0\<close>

lemma fourRequests_queue:
  assumes "ta < tb" "tb < tc" "tc < td"
  shows "queue (fourRequests a b c d ta tb tc td req h) =
    [newQueueItem DEFAULT_RETRY_POLICY b tb req (prio 0),
     newQueueItem DEFAULT_RETRY_POLICY d td req (prio 0),
     newQueueItem DEFAULT_RETRY_POLICY c tc req (prio 1),
     newQueueItem DEFAULT_RETRY_POLICY a ta req (prio 2)]"
  using assms
  by (simp add: fourRequests_def addRequest_def newRequestQueue_def sortQueueByPriority_def
        sortBy_def compareItems_def newQueueItem_def prio_def)

lemma fourRequests_rest:
  "processing (fourRequests a b c d ta tb tc td req h) = {}"
  "isProcessing (fourRequests a b c d ta tb tc td req h)"
  "maxConcurrentRequests (fourRequests a b c d ta tb tc td req h) = 1"
  by (simp_all add: fourRequests_def addRequest_def newRequestQueue_def)

lemma loopIteration_idle:
  assumes "processing s = {}" "isProcessing s" "maxConcurrentRequests s = 1"
    "getNextPendingItem s = Some i"
  shows "queue (loopIteration t1 t2 s) =
           (queue s)[i := (queue s ! i)\<lparr>startedAt := Some t1, status := COMPLETED, completedAt := Some t2\<rparr>]"
    and "processing (loopIteration t1 t2 s) = {}"
    and "isProcessing (loopIteration t1 t2 s)"
    and "maxConcurrentRequests (loopIteration t1 t2 s) = 1"
  using assms getNextPendingItem_Some[OF assms(4)]
  by (simp_all add: loopIteration_def processRequest_def processRequestStart_def
        processRequestFinish_def Let_def)

lemma four_requests_admission:
  assumes "ta < tb" "tb < tc" "tc < td"
  shows "stamps (fourRequests a b c d ta tb tc td req h) =
           [(b, PENDING, None), (d, PENDING, None), (c, PENDING, None), (a, PENDING, None)]"
    and "stamps (loopIteration u1 v1 (fourRequests a b c d ta tb tc td req h)) =
           [(b, COMPLETED, Some u1), (d, PENDING, None), (c, PENDING, None), (a, PENDING, None)]"
    and "stamps (loopIteration u2 v2 (loopIteration u1 v1 (fourRequests a b c d ta tb tc td req h))) =
           [(b, COMPLETED, Some u1), (d, COMPLETED, Some u2), (c, PENDING, None), (a, PENDING, None)]"
    and "stamps (loopIteration u3 v3 (loopIteration u2 v2 (loopIteration u1 v1
            (fourRequests a b c d ta tb tc td req h)))) =
           [(b, COMPLETED, Some u1), (d, COMPLETED, Some u2), (c, COMPLETED, Some u3), (a, PENDING, None)]"
    and "stamps (loopIteration u4 v4 (loopIteration u3 v3 (loopIteration u2 v2 (loopIteration u1 v1
            (fourRequests a b c d ta tb tc td req h))))) =
           [(b, COMPLETED, Some u1), (d, COMPLETED, Some u2), (c, COMPLETED, Some u3), (a, COMPLETED, Some u4)]"
proof -
  let ?s = "fourRequests a b c d ta tb tc td req h"
  let ?s1 = "loopIteration u1 v1 ?s"
  let ?s2 = "loopIteration u2 v2 ?s1"
  let ?s3 = "loopIteration u3 v3 ?s2"
  let ?s4 = "loopIteration u4 v4 ?s3"
  note q = fourRequests_queue[OF assms, of a b c d req h]
  note r = fourRequests_rest[of a b c d ta tb tc td req h]
  show "stamps ?s = [(b, PENDING, None), (d, PENDING, None), (c, PENDING, None), (a, PENDING, None)]"
    by (simp add: stamps_def q newQueueItem_def)
  have g1: "getNextPendingItem ?s = Some 0"
    by (simp add: getNextPendingItem_def q newQueueItem_def)
  note l1 = loopIteration_idle[OF r g1, of u1 v1]
  have q1: "queue ?s1 = [(newQueueItem DEFAULT_RETRY_POLICY b tb req (prio 0))
                \<lparr>startedAt := Some u1, status := COMPLETED, completedAt := Some v1\<rparr>,
     newQueueItem DEFAULT_RETRY_POLICY d td req (prio 0),
     newQueueItem DEFAULT_RETRY_POLICY c tc req (prio 1),
     newQueueItem DEFAULT_RETRY_POLICY a ta req (prio 2)]"
    by (simp add: l1(1) q)
  show "stamps ?s1 =
           [(b, COMPLETED, Some u1), (d, PENDING, None), (c, PENDING, None), (a, PENDING, None)]"
    by (simp add: stamps_def q1 newQueueItem_def)
  have g2: "getNextPendingItem ?s1 = Some 1"
    by (simp add: getNextPendingItem_def q1 newQueueItem_def)
  note l2 = loopIteration_idle[OF l1(2,3,4) g2, of u2 v2]
  have q2: "queue ?s2 = [(newQueueItem DEFAULT_RETRY_POLICY b tb req (prio 0))
                \<lparr>startedAt := Some u1, status := COMPLETED, completedAt := Some v1\<rparr>,
     (newQueueItem DEFAULT_RETRY_POLICY d td req (prio 0))
                \<lparr>startedAt := Some u2, status := COMPLETED, completedAt := Some v2\<rparr>,
     newQueueItem DEFAULT_RETRY_POLICY c tc req (prio 1),
     newQueueItem DEFAULT_RETRY_POLICY a ta req (prio 2)]"
    by (simp add: l2(1) q1)
  show "stamps ?s2 =
           [(b, COMPLETED, Some u1), (d, COMPLETED, Some u2), (c, PENDING, None), (a, PENDING, None)]"
    by (simp add: stamps_def q2 newQueueItem_def)
  have g3: "getNextPendingItem ?s2 = Some 2"
    by (simp add: getNextPendingItem_def q2 newQueueItem_def)
  note l3 = loopIteration_idle[OF l2(2,3,4) g3, of u3 v3]
  have q3: "queue ?s3 = [(newQueueItem DEFAULT_RETRY_POLICY b tb req (prio 0))
                \<lparr>startedAt := Some u1, status := COMPLETED, completedAt := Some v1\<rparr>,
     (newQueueItem DEFAULT_RETRY_POLICY d td req (prio 0))
                \<lparr>startedAt := Some u2, status := COMPLETED, completedAt := Some v2\<rparr>,
     (newQueueItem DEFAULT_RETRY_POLICY c tc req (prio 1))
                \<lparr>startedAt := Some u3, status := COMPLETED, completedAt := Some v3\<rparr>,
     newQueueItem DEFAULT_RETRY_POLICY a ta req (prio 2)]"
    by (simp add: l3(1) q2)
  show "stamps ?s3 =
           [(b, COMPLETED, Some u1), (d, COMPLETED, Some u2), (c, COMPLETED, Some u3), (a, PENDING, None)]"
    by (simp add: stamps_def q3 newQueueItem_def)
  have g4: "getNextPendingItem ?s3 = Some 3"
    by (simp add: getNextPendingItem_def q3 newQueueItem_def)
  note l4 = loopIteration_idle[OF l3(2,3,4) g4, of u4 v4]
  show "stamps ?s4 =
           [(b, COMPLETED, Some u1), (d, COMPLETED, Some u2), (c, COMPLETED, Some u3), (a, COMPLETED, Some u4)]"
    by (simp add: stamps_def l4(1) q3 newQueueItem_def)
qed



subsection \<open>The example inputs, evaluated\<close>

lemma pow2_small: "pow2 0 = 1" "pow2 1 = 2" "pow2 2 = 4"
  by (simp_all add: pow2_def)

lemma exItem_simps:
  "retryPolicy exItem = \<lparr>maxRetries = 3, retryDelay = 1000, useExponentialBackoff = True, maxRetryDelay = 30000\<rparr>"
  "retryCount exItem = 0"
  by (simp_all add: exItem_def newQueueItem_def noOptions_def mergePolicy_def DEFAULT_RETRY_POLICY_def)

lemma exQueue_queue: "queue exQueue = [exItem]"
  by (simp add: exQueue_def exItem_def addRequest_def newRequestQueue_def sortQueueByPriority_def sortBy_def)

lemma exQueue_rest: "processing exQueue = {}" "isProcessing exQueue" "maxConcurrentRequests exQueue = 1"
  "qstats exQueue = emptyStats"
  by (simp_all add: exQueue_def addRequest_def newRequestQueue_def)

lemma exQueue_reachable: "reachable exQueue"
  unfolding exQueue_def by (intro reachable.intros)

lemma exQueue_next: "getNextPendingItem exQueue = Some 0"
  by (simp add: getNextPendingItem_def exQueue_queue exItem_def newQueueItem_def)

lemma classify_network: "createApiError (rawError ''network down'') =
    \<lparr>message = ''network down'', etype = Some NETWORK_ERROR, retryable = Some True, retryAfter = None\<rparr>"
  by (simp add: createApiError_def rawError_def)

lemma classify_429: "createApiError (rawError ''429 Too Many Requests'') =
    \<lparr>message = ''429 Too Many Requests'', etype = Some RATE_LIMIT_EXCEEDED, retryable = Some True,
      retryAfter = Some 5000\<rparr>"
  by (simp add: createApiError_def rawError_def)

lemma classify_500: "createApiError (rawError ''500 Internal Server Error'') =
    \<lparr>message = ''500 Internal Server Error'', etype = Some UNKNOWN, retryable = Some False,
      retryAfter = None\<rparr>"
  by (simp add: createApiError_def rawError_def)

lemma message_rawError: "message (rawError m) = m"
  by (simp add: rawError_def)

lemma lower_500: "toLowerCase ''500 Internal Server Error'' = ''500 internal server error''"
  by code_simp

lemma exCompleted_queue:
  "queue exCompleted = [exItem\<lparr>startedAt := Some 5, status := COMPLETED, completedAt := Some 6\<rparr>]"
  unfolding exCompleted_def
  by (simp add: loopIteration_idle(1)[OF exQueue_rest(1,2,3) exQueue_next] exQueue_queue)

lemma exCancelled_queue:
  "queue exCancelled = [exItem\<lparr>status := CANCELLED, completedAt := Some 10\<rparr>]"
  by (simp add: exCancelled_def cancelRequest_def exQueue_queue exItem_def newQueueItem_def)

lemma exStarted_eq:
  "processRequestStart 0 5 exQueue = Some exStarted"
  by (simp add: exStarted_def processRequestStart_def Let_def exQueue_rest)

lemma exStarted_queue: "queue exStarted = [exItem\<lparr>status := PROCESSING, startedAt := Some 5\<rparr>]"
  using processRequestStart_queue[OF exStarted_eq] by (simp add: exQueue_queue)

lemma exStarted_instant: "instant exStarted"
  by (rule instant.within[OF exQueue_reachable _ _ exQueue_next exStarted_eq])
     (simp_all add: slotFree_def exQueue_rest)


section \<open>Properties of the cache service\<close>

lemma forEach_rel:
  assumes step: "\<And>x s s'. f x s = Some s' \<Longrightarrow> P s s'"
    and refl: "\<And>s. P s s" and trans: "\<And>a b c. P a b \<Longrightarrow> P b c \<Longrightarrow> P a c"
  shows "forEach f xs s = Some s' \<Longrightarrow> P s s'"
proof (induction xs arbitrary: s)
  case Nil
  then show ?case by (simp add: refl)
next
  case (Cons x xs)
  then obtain s1 where s1: "f x s = Some s1" "forEach f xs s1 = Some s'"
    by (auto split: option.splits)
  from step[OF s1(1)] Cons.IH[OF s1(2)] show ?case by (rule trans)
qed

lemma forEach_total:
  assumes step: "\<And>x s. Q s \<Longrightarrow> \<exists>s'. f x s = Some s' \<and> Q s'"
  shows "Q s \<Longrightarrow> \<exists>s'. forEach f xs s = Some s' \<and> Q s'"
proof (induction xs arbitrary: s)
  case Nil
  then show ?case by simp
next
  case (Cons x xs)
  from step[OF Cons.prems] obtain s1 where s1: "f x s = Some s1" "Q s1" by blast
  from Cons.IH[OF s1(2)] s1(1) show ?case by simp
qed

text \<open>A relation between the state before and after that holds across \<open>dropItem\<close>,
  is reflexive and transitive, holds across the three functions.\<close>

lemma fuel_rel:
  assumes drop: "\<And>k item c. map_of (memoryCache c) k = Some item \<Longrightarrow> P c (dropItem k item c)"
    and refl: "\<And>s. P s s" and trans: "\<And>a b c. P a b \<Longrightarrow> P b c \<Longrightarrow> P a c"
  shows "(\<forall>k c c' b. remove_fuel n env k c = Some (c', b) \<longrightarrow> P c c') \<and>
         (\<forall>c c'. cleanupOldItems_fuel n env c = Some c' \<longrightarrow> P c c') \<and>
         (\<forall>c c'. saveToStorage_fuel n env c = Some c' \<longrightarrow> P c c')"
proof (induction n)
  case 0
  have r: "\<forall>k c c' b. remove_fuel 0 env k c = Some (c', b) \<longrightarrow> P c c'" by simp
  have c: "P c c'" if "cleanupOldItems_fuel 0 env c = Some c'" for c c'
    using that
    by (auto elim!: forEach_rel[rotated 3] simp: cleanupOldItems_fuel.simps refl intro: trans)
  have "P c c'" if "saveToStorage_fuel 0 env c = Some c'" for c c'
    using that c by (auto simp: saveToStorage_fuel.simps refl split: option.splits if_splits)
  with r c show ?case by blast
next
  case (Suc n)
  have r: "P c c'" if "remove_fuel (Suc n) env k c = Some (c', b)" for k c c' b
  proof (cases "map_of (memoryCache c) k")
    case None
    with that show ?thesis by (simp add: refl)
  next
    case (Some item)
    with that have "saveToStorage_fuel n env (dropItem k item c) = Some c'"
      by (auto split: option.splits)
    with Suc have "P (dropItem k item c) c'" by blast
    with drop[OF Some] show ?thesis by (rule trans)
  qed
  have c: "P c c'" if "cleanupOldItems_fuel (Suc n) env c = Some c'" for c c'
  proof -
    have "P s s'" if "map_option fst (remove_fuel (Suc n) env x s) = Some s'" for x s s'
      using that r[of x s s'] by (cases "remove_fuel (Suc n) env x s") auto
    then show ?thesis
      using that forEach_rel[of "\<lambda>k c'. map_option fst (remove_fuel (Suc n) env k c')" P]
      by (simp add: cleanupOldItems_fuel.simps refl) (blast intro: trans)
  qed
  have "P c c'" if "saveToStorage_fuel (Suc n) env c = Some c'" for c c'
    using that c by (auto simp: saveToStorage_fuel.simps refl split: option.splits if_splits)
  with r c show ?case by blast
qed

lemmas remove_fuel_rel = fuel_rel[THEN conjunct1, rule_format]

lemmas cleanupOldItems_fuel_rel = fuel_rel[THEN conjunct2, THEN conjunct1, rule_format]

lemmas saveToStorage_fuel_rel = fuel_rel[THEN conjunct2, THEN conjunct2, rule_format]


lemma length_delete_less: "map_of m k = Some x \<Longrightarrow> length (AList.delete k m) < length m"
  by (induction m) (auto simp: AList.delete_eq le_imp_less_Suc split: if_splits)

lemma shrink_length:
  "remove_fuel n env k c = Some (c', b) \<Longrightarrow> length (memoryCache c') \<le> length (memoryCache c)"
  by (rule remove_fuel_rel[where P = "\<lambda>c c'. length (memoryCache c') \<le> length (memoryCache c)"])
     (auto simp: dropItem_def Let_def length_delete_le)

lemma remove_fuel_total:
  "length (memoryCache c) < n \<Longrightarrow> \<exists>c' b. remove_fuel n env k c = Some (c', b)"
proof (induction n arbitrary: k c)
  case 0
  then show ?case by simp
next
  case (Suc n)
  show ?case
  proof (cases "map_of (memoryCache c) k")
    case None
    then show ?thesis by auto
  next
    case (Some item)
    let ?c1 = "dropItem k item c"
    from Some Suc.prems have len: "length (memoryCache ?c1) < n"
      using length_delete_less[OF Some] by (simp add: dropItem_def Let_def)
    have "\<exists>c'. saveToStorage_fuel n env ?c1 = Some c'"
    proof -
      have "\<exists>s'. forEach (\<lambda>k c'. map_option fst (remove_fuel n env k c')) ks ?c1 = Some s' \<and>
                 length (memoryCache s') < n" for ks
      proof (rule forEach_total[where Q = "\<lambda>s. length (memoryCache s) < n"])
        fix x and s :: "'a CacheService"
        assume s: "length (memoryCache s) < n"
        from Suc.IH[OF s, of x] obtain c' b where r: "remove_fuel n env x s = Some (c', b)" by blast
        from shrink_length[OF r] s r
        show "\<exists>s'. map_option fst (remove_fuel n env x s) = Some s' \<and> length (memoryCache s') < n"
          by simp
      qed (rule len)
      then show ?thesis
        by (auto simp: saveToStorage_fuel.simps cleanupOldItems_fuel.simps split: option.splits)
    qed
    with Some show ?thesis by auto
  qed
qed

lemma fuel_gt: "length (memoryCache c) < fuel c"
  by (simp add: fuel_def)

lemma cleanupOldItems_fuel_total:
  assumes "length (memoryCache c) < n"
  shows "\<exists>c'. cleanupOldItems_fuel n env c = Some c'"
proof -
  have "\<exists>s'. forEach (\<lambda>k c'. map_option fst (remove_fuel n env k c')) ks c = Some s' \<and>
             length (memoryCache s') < n" for ks
  proof (rule forEach_total[where Q = "\<lambda>s. length (memoryCache s) < n"])
    fix x and s :: "'a CacheService"
    assume s: "length (memoryCache s) < n"
    from remove_fuel_total[OF s, of env x] obtain c' b where r: "remove_fuel n env x s = Some (c', b)"
      by blast
    from shrink_length[OF r] s r
    show "\<exists>s'. map_option fst (remove_fuel n env x s) = Some s' \<and> length (memoryCache s') < n"
      by simp
  qed (rule assms)
  then show ?thesis by (auto simp: cleanupOldItems_fuel.simps)
qed

lemma saveToStorage_fuel_total:
  "length (memoryCache c) < n \<Longrightarrow> \<exists>c'. saveToStorage_fuel n env c = Some c'"
  using cleanupOldItems_fuel_total[of c n env]
  by (auto simp: saveToStorage_fuel.simps split: option.splits)

lemma sum_delete:
  "distinct (map fst m) \<Longrightarrow> map_of m k = Some x \<Longrightarrow>
   (\<Sum>e\<leftarrow>AList.delete k m. (f e :: int)) = (\<Sum>e\<leftarrow>m. f e) - f (k, x)"
proof (induction m)
  case Nil
  then show ?case by simp
next
  case (Cons a m)
  show ?case
  proof (cases "fst a = k")
    case True
    with Cons.prems have "a = (k, x)" by (cases a) auto
    moreover from True Cons.prems have "k \<notin> fst ` set m" by auto
    then have "AList.delete k m = m" by (simp add: AList.delete_id)
    ultimately show ?thesis by (simp add: AList.delete_eq)
  next
    case False
    with Cons show ?thesis by (auto simp: AList.delete_eq)
  qed
qed

lemma length_delete:
  "distinct (map fst m) \<Longrightarrow> map_of m k = Some x \<Longrightarrow>
   int (length (AList.delete k m)) = int (length m) - 1"
  using sum_delete[where m = m and k = k and x = x and f = "\<lambda>_. 1"] by (simp add: sum_list_triv)

lemma sum_update:
  "distinct (map fst m) \<Longrightarrow>
   (\<Sum>e\<leftarrow>AList.update k v m. (f e :: int)) =
     (case map_of m k of None \<Rightarrow> (\<Sum>e\<leftarrow>m. f e) + f (k, v)
                     | Some x \<Rightarrow> (\<Sum>e\<leftarrow>m. f e) - f (k, x) + f (k, v))"
proof (induction m)
  case Nil
  then show ?case by simp
next
  case (Cons a m)
  show ?case
  proof (cases "fst a = k")
    case True
    then show ?thesis by (cases a) auto
  next
    case False
    with Cons show ?thesis by (cases a) (auto split: option.splits)
  qed
qed

lemma length_update:
  "distinct (map fst m) \<Longrightarrow>
   int (length (AList.update k v m)) =
     (case map_of m k of None \<Rightarrow> int (length m) + 1 | Some x \<Rightarrow> int (length m))"
  using sum_update[where m = m and k = k and v = v and f = "\<lambda>_. 1"] by (simp add: sum_list_triv split: option.splits)

lemma dropItem_consistent:
  assumes "map_of (memoryCache c) k = Some item" "consistent c"
  shows "consistent (dropItem k item c)"
  using assms sum_delete[where m = "memoryCache c" and k = k and x = item and f = "\<lambda>e. int (c_size (snd e))"]
    length_delete[where m = "memoryCache c" and k = k and x = item]
  by (simp add: consistent_def distinctKeys_def statsConsistent_def dropItem_def Let_def
        AList.distinct_delete)

lemma remove_fuel_consistent:
  "remove_fuel n env k c = Some (c', b) \<Longrightarrow> consistent c \<Longrightarrow> consistent c'"
  by (rule remove_fuel_rel[where P = "\<lambda>c c'. consistent c \<longrightarrow> consistent c'", rule_format])
     (auto intro: dropItem_consistent)

lemma cleanupOldItems_fuel_consistent:
  "cleanupOldItems_fuel n env c = Some c' \<Longrightarrow> consistent c \<Longrightarrow> consistent c'"
  by (rule cleanupOldItems_fuel_rel[where P = "\<lambda>c c'. consistent c \<longrightarrow> consistent c'", rule_format])
     (auto intro: dropItem_consistent)

lemma saveToStorage_fuel_consistent:
  "saveToStorage_fuel n env c = Some c' \<Longrightarrow> consistent c \<Longrightarrow> consistent c'"
  by (rule saveToStorage_fuel_rel[where P = "\<lambda>c c'. consistent c \<longrightarrow> consistent c'", rule_format])
     (auto intro: dropItem_consistent)

lemma cleanupOldItems_fuel_length:
  "cleanupOldItems_fuel n env c = Some c' \<Longrightarrow> length (memoryCache c') \<le> length (memoryCache c)"
  by (rule cleanupOldItems_fuel_rel[where P = "\<lambda>c c'. length (memoryCache c') \<le> length (memoryCache c)"])
     (auto simp: dropItem_def Let_def length_delete_le)

lemma consistent_stats_only:
  "consistent c \<Longrightarrow> totalItems st = totalItems (stats c) \<Longrightarrow> totalSize st = totalSize (stats c) \<Longrightarrow>
   averageItemSize st = averageItemSize (stats c) \<Longrightarrow> consistent (c\<lparr>stats := st\<rparr>)"
  by (simp add: consistent_def distinctKeys_def statsConsistent_def)

lemma remove_cache_ok:
  assumes "consistent c"
  shows "\<exists>c' b. remove_cache env k c = Some (c', b) \<and> consistent c'"
proof -
  from remove_fuel_total[OF fuel_gt, where env = env and k = k and c = c] obtain c' b where
    r: "remove_fuel (fuel c) env k c = Some (c', b)" by blast
  with remove_fuel_consistent[OF r assms] show ?thesis by (simp add: remove_cache_def)
qed

lemma get_cache_ok:
  assumes "consistent c"
  shows "\<exists>r c'. get_cache env k now c = Some (r, c') \<and> consistent c'"
proof (cases "map_of (memoryCache c) k")
  case None
  with assms show ?thesis
    by (auto simp: get_cache_def updateHitRate_def Let_def intro!: consistent_stats_only)
next
  case (Some item)
  show ?thesis
  proof (cases "isExpired now item")
    case True
    from remove_fuel_total[OF fuel_gt, where env = env and k = k and c = c] obtain c' b where
      r: "remove_fuel (fuel c) env k c = Some (c', b)" by blast
    from remove_fuel_consistent[OF r assms] r Some True show ?thesis
      by (auto simp: get_cache_def updateHitRate_def Let_def intro!: consistent_stats_only)
  next
    case False
    let ?item = "item\<lparr>c_lastAccessedAt := now, c_accessCount := c_accessCount item + 1\<rparr>"
    let ?c1 = "c\<lparr>memoryCache := AList.update k ?item (memoryCache c)\<rparr>"
    from assms Some have c1: "consistent ?c1"
      using sum_update[where m = "memoryCache c" and k = k and v = ?item and f = "\<lambda>e. int (c_size (snd e))"]
        length_update[where m = "memoryCache c" and k = k and v = ?item]
      by (simp add: consistent_def distinctKeys_def statsConsistent_def AList.distinct_update)
    have c2: "consistent (updateMostAccessedItem k a ?c1)" for a
      using c1 by (auto simp: updateMostAccessedItem_def split: option.splits
                        intro!: consistent_stats_only)
    from Some False c2 show ?thesis
      by (auto simp: get_cache_def updateHitRate_def Let_def intro!: consistent_stats_only)
  qed
qed

lemma storeItem_consistent:
  assumes "consistent c" "c_size item = sz"
  shows "consistent (storeItem k item c)"
  using assms sum_update[where m = "memoryCache c" and k = k and v = item
               and f = "\<lambda>e. int (c_size (snd e))"]
    length_update[where m = "memoryCache c" and k = k and v = item]
  by (auto simp: consistent_def distinctKeys_def statsConsistent_def storeItem_def Let_def
        AList.distinct_update split: option.splits)

lemma length_update_le: "length (AList.update k v m) \<le> Suc (length m)"
  by (induction m) auto

lemma length_storeItem: "length (memoryCache (storeItem k item c)) \<le> Suc (length (memoryCache c))"
  by (simp add: storeItem_def Let_def length_update_le)

lemma storeAndSave_ok:
  assumes "consistent c" "length (memoryCache c) < n - 1"
  shows "\<exists>c'. storeAndSave n env k item c = Some (c', True) \<and> consistent c'"
proof -
  from assms(2) length_storeItem[of k item c] have "length (memoryCache (storeItem k item c)) < n"
    by simp
  from saveToStorage_fuel_total[OF this, of env] obtain c' where
    c': "saveToStorage_fuel n env (storeItem k item c) = Some c'" by blast
  from saveToStorage_fuel_consistent[OF c' storeItem_consistent[OF assms(1) refl]] c'
  show ?thesis by (simp add: storeAndSave_def)
qed

lemma set_cache_ok:
  assumes "consistent c"
  shows "\<exists>c' b. set_cache env k d ttl now c = Some (c', b) \<and> consistent c'"
proof (cases "wouldExceedStorageLimit (calculateSize env d) c")
  case False
  have "length (memoryCache c) < fuel c - 1" by (simp add: fuel_def)
  from storeAndSave_ok[OF assms this] False show ?thesis
    by (fastforce simp: set_cache_def Let_def)
next
  case True
  from cleanupOldItems_fuel_total[OF fuel_gt, where env = env and c = c] obtain c1 where
    c1: "cleanupOldItems_fuel (fuel c) env c = Some c1" by blast
  note cons1 = cleanupOldItems_fuel_consistent[OF c1 assms]
  from cleanupOldItems_fuel_length[OF c1] have len1: "length (memoryCache c1) < fuel c - 1"
    by (simp add: fuel_def)
  show ?thesis
  proof (cases "wouldExceedStorageLimit (calculateSize env d) c1")
    case True
    with \<open>wouldExceedStorageLimit (calculateSize env d) c\<close> c1 cons1 show ?thesis
      by (auto simp: set_cache_def Let_def)
  next
    case False
    with storeAndSave_ok[OF cons1 len1] \<open>wouldExceedStorageLimit (calculateSize env d) c\<close> c1
    show ?thesis by (fastforce simp: set_cache_def Let_def)
  qed
qed

lemma clear_cache_ok: "consistent (clear_cache c)"
  by (simp add: clear_cache_def consistent_def distinctKeys_def statsConsistent_def initialStats_def)

lemma cleanup_cache_ok:
  assumes "consistent c"
  shows "\<exists>c' cnt. cleanup_cache env now c = Some (c', cnt) \<and> consistent c'"
proof -
  let ?Q = "\<lambda>s :: 'a CacheService \<times> nat. length (memoryCache (fst s)) < fuel c \<and> consistent (fst s)"
  have "\<exists>s'. forEach (cleanupStep (fuel c) env now) ks (c, 0) = Some s' \<and> ?Q s'" for ks
  proof (rule forEach_total[where Q = ?Q])
    fix x and s :: "'a CacheService \<times> nat"
    assume q: "?Q s"
    obtain c0 n0 where s: "s = (c0, n0)" by (cases s)
    from remove_fuel_total[of c0 "fuel c" env x] q s obtain c' b where
      r: "remove_fuel (fuel c) env x c0 = Some (c', b)" by auto
    from shrink_length[OF r] remove_fuel_consistent[OF r] q r s
    show "\<exists>s'. cleanupStep (fuel c) env now x s = Some s' \<and> ?Q s'"
      by (auto simp: cleanupStep_def split: option.splits)
  next
    from assms show "?Q (c, 0)" by (simp add: fuel_gt)
  qed
  then obtain c' cnt where
    "forEach (cleanupStep (fuel c) env now) (map fst (memoryCache c)) (c, 0) = Some (c', cnt)"
    "consistent c'" by fastforce
  then show ?thesis
    by (auto simp: cleanup_cache_def intro!: consistent_stats_only)
qed

lemma distinct_fold_update:
  "distinct (map fst m) \<Longrightarrow>
   distinct (map fst (fold (\<lambda>item m. if P item then AList.update (g item) item m else m) items m))"
  by (induction items arbitrary: m) (auto simp: AList.distinct_update)

lemma newCacheService_ok: "consistent (newCacheService cfg stored now)"
  by (cases stored)
     (auto simp: newCacheService_def loadFromStorage_def updateStatsFromMemory_def Let_def
        consistent_def distinctKeys_def statsConsistent_def initialStats_def
        intro!: distinct_fold_update)


lemma emptyCache_eq:
  "emptyCache = \<lparr>memoryCache = [], stats = initialStats, config = DEFAULT_CACHE_CONFIG\<rparr>"
  by (simp add: emptyCache_def newCacheService_def loadFromStorage_def)

lemma map_of_delete_Some:
  "map_of (AList.delete k m) k' = Some x \<Longrightarrow> map_of m k' = Some x"
proof (cases "k' = k")
  case True
  have "map_of (AList.delete k m) k = None"
    using AList.delete_notin_dom[of k m] by (simp add: map_of_eq_None_iff)
  with True show "map_of (AList.delete k m) k' = Some x \<Longrightarrow> ?thesis" by simp
next
  case False
  then show "map_of (AList.delete k m) k' = Some x \<Longrightarrow> ?thesis" by simp
qed

lemma submap_dropItem: "submap c (dropItem k item c)"
  by (auto simp: submap_def dropItem_def Let_def dest: map_of_delete_Some)

lemma submap_refl: "submap c c"
  by (simp add: submap_def)

lemma submap_trans: "submap a b \<Longrightarrow> submap b c \<Longrightarrow> submap a c"
  by (simp add: submap_def)

lemma saveToStorage_fuel_submap: "saveToStorage_fuel n env c = Some c' \<Longrightarrow> submap c c'"
  by (rule saveToStorage_fuel_rel[where P = submap])
     (auto intro: submap_dropItem submap_refl submap_trans)

lemma remove_fuel_submap: "remove_fuel n env k c = Some (c', b) \<Longrightarrow> submap c c'"
  by (rule remove_fuel_rel[where P = submap])
     (auto intro: submap_dropItem submap_refl submap_trans)



lemma set_cache_stored:
  assumes "set_cache env k v ttl now c = Some (c', True)"
    and "map_of (memoryCache c') k = Some item"
  shows "item = newCacheItem k v now (now + ttlOrDefault ttl c) (calculateSize env v)"
proof -
  let ?item = "newCacheItem k v now (now + ttlOrDefault ttl c) (calculateSize env v)"
  from assms(1) obtain c1 where "storeAndSave (fuel c) env k ?item c1 = Some (c', True)"
    by (auto simp: set_cache_def Let_def split: if_splits option.splits)
  then have "saveToStorage_fuel (fuel c) env (storeItem k ?item c1) = Some c'"
    by (auto simp: storeAndSave_def split: option.splits)
  from saveToStorage_fuel_submap[OF this] assms(2)
  have "map_of (memoryCache (storeItem k ?item c1)) k = Some item"
    by (simp add: submap_def)
  then show ?thesis by (simp add: storeItem_def Let_def AList.update_conv')
qed


lemma platform_simps:
  "calculateSize asciiPlatform d = length d + 2"
  "jsonLength asciiPlatform items = Some (2 + (\<Sum>i\<leftarrow>items. 140 + length (c_key i) + length (c_data i)))"
  by (simp_all add: calculateSize_def asciiPlatform_def)

lemma ttl_default: "ttlOrDefault None emptyCache = 86400000"
  by (simp add: ttlOrDefault_def emptyCache_eq DEFAULT_CACHE_CONFIG_def)

lemma set_small:
  "set_cache asciiPlatform ''qa_1'' ''X is Y'' None 1000 emptyCache = Some (smallCache, True)"
  by (simp add: set_cache_def Let_def platform_simps ttl_default wouldExceedStorageLimit_def
        storeAndSave_def storeItem_def saveToStorage_fuel.simps MAX_STORAGE_SIZE_def
        newCacheItem_def smallCache_def)
     (simp add: emptyCache_eq initialStats_def DEFAULT_CACHE_CONFIG_def)












lemma compare_less: "compareLastAccessed a b < 0 \<longleftrightarrow> lastAccessed a < lastAccessed b"
  by (simp add: compareLastAccessed_def lastAccessed_def)

lemma ordered_insertBy: "ordered ys \<Longrightarrow> ordered (insertBy compareLastAccessed x ys)"
  by (induction ys) (auto simp: compare_less set_insertBy)

lemma ordered_fold: "ordered acc \<Longrightarrow> ordered (fold (insertBy compareLastAccessed) xs acc)"
  by (induction xs arbitrary: acc) (auto intro: ordered_insertBy)

lemma ordered_byLastAccessed: "ordered (byLastAccessed xs)"
  by (simp add: byLastAccessed_def sortBy_def ordered_fold)

lemma distinct_insertBy: "distinct (insertBy cmp x ys) \<longleftrightarrow> x \<notin> set ys \<and> distinct ys"
  by (induction ys) (auto simp: set_insertBy)

lemma distinct_fold_insertBy:
  "distinct (fold (insertBy cmp) xs acc) \<longleftrightarrow> distinct xs \<and> distinct acc \<and> set xs \<inter> set acc = {}"
  by (induction xs arbitrary: acc) (auto simp: distinct_insertBy set_insertBy)

lemma length_insertBy: "length (insertBy cmp x xs) = Suc (length xs)"
  by (induction xs) auto

lemma length_fold_insertBy: "length (fold (insertBy cmp) xs acc) = length xs + length acc"
  by (induction xs arbitrary: acc) (auto simp: length_insertBy)

lemma byLastAccessed_basics:
  "set (byLastAccessed xs) = set xs" "length (byLastAccessed xs) = length xs"
  "distinct (byLastAccessed xs) \<longleftrightarrow> distinct xs"
  by (simp_all add: byLastAccessed_def sortBy_def set_fold_insertBy length_fold_insertBy
        distinct_fold_insertBy)

lemma insertBy_front: "\<forall>z\<in>set zs. cmp x z < 0 \<Longrightarrow> insertBy cmp x zs = x # zs"
  by (cases zs) auto

lemma filter_insertBy:
  assumes "ordered ys"
  shows "filter P (insertBy compareLastAccessed x ys) =
         (if P x then insertBy compareLastAccessed x (filter P ys) else filter P ys)"
  using assms
proof (induction ys)
  case Nil
  then show ?case by simp
next
  case (Cons y ys)
  show ?case
  proof (cases "compareLastAccessed x y < 0")
    case True
    with Cons.prems have "\<forall>z\<in>set (filter P (y # ys)). compareLastAccessed x z < 0"
      by (auto simp: compare_less)
    from insertBy_front[where cmp = compareLastAccessed and x = x and zs = "filter P (y # ys)"] this
      True
    show ?thesis by simp
  next
    case False
    with Cons show ?thesis by auto
  qed
qed

lemma filter_fold_insertBy:
  "ordered acc \<Longrightarrow>
   filter P (fold (insertBy compareLastAccessed) xs acc) =
   fold (insertBy compareLastAccessed) (filter P xs) (filter P acc)"
proof (induction xs arbitrary: acc)
  case Nil
  then show ?case by simp
next
  case (Cons x xs)
  from Cons.IH[OF ordered_insertBy[OF Cons.prems], of x] filter_insertBy[OF Cons.prems, of P x]
  show ?case by simp
qed

lemma filter_byLastAccessed: "byLastAccessed (filter P xs) = filter P (byLastAccessed xs)"
  using filter_fold_insertBy[of "[]" P xs] by (simp add: byLastAccessed_def sortBy_def)

lemma filter_not_in_take:
  assumes "distinct xs"
  shows "filter (\<lambda>e. e \<notin> set (take m xs)) xs = drop m xs"
proof -
  let ?P = "\<lambda>e. e \<notin> set (take m xs)"
  have "distinct (take m xs @ drop m xs)" using assms by simp
  then have disj: "set (take m xs) \<inter> set (drop m xs) = {}" by (simp only: distinct_append)
  have "filter ?P xs = filter ?P (take m xs) @ filter ?P (drop m xs)"
    by (metis append_take_drop_id filter_append)
  moreover have "filter ?P (take m xs) = []" by (simp add: filter_empty_conv)
  moreover have "filter ?P (drop m xs) = drop m xs" using disj by (auto simp: filter_id_conv)
  ultimately show ?thesis by simp
qed

lemma byLastAccessed_evictPrefix:
  "distinct xs \<Longrightarrow> byLastAccessed (evictPrefix m xs) = drop m (byLastAccessed xs)"
  by (simp add: evictPrefix_def filter_byLastAccessed filter_not_in_take byLastAccessed_basics)

lemma evictPrefix_evictPrefix:
  assumes "distinct xs"
  shows "evictPrefix m' (evictPrefix m xs) = evictPrefix (m + m') xs"
proof -
  have "set (take (m + m') (byLastAccessed xs)) =
        set (take m (byLastAccessed xs)) \<union> set (take m' (drop m (byLastAccessed xs)))"
    by (simp add: take_add)
  then show ?thesis
    unfolding evictPrefix_def[of m' "evictPrefix m xs"]
      byLastAccessed_evictPrefix[OF assms]
    by (auto simp: evictPrefix_def intro: filter_cong)
qed

lemma evictPrefix_0: "evictPrefix 0 xs = xs"
  by (simp add: evictPrefix_def)

lemma set_evictPrefix:
  "distinct xs \<Longrightarrow> set (evictPrefix m xs) = set (drop m (byLastAccessed xs))"
  using byLastAccessed_evictPrefix[of xs m] byLastAccessed_basics(1)[of "evictPrefix m xs"]
  by simp

lemma length_evictPrefix:
  "distinct xs \<Longrightarrow> length (evictPrefix m xs) = length xs - m"
  using byLastAccessed_evictPrefix[of xs m] byLastAccessed_basics(2)[of "evictPrefix m xs"]
    byLastAccessed_basics(2)[of xs]
  by simp

lemma delete_filter_fst: "AList.delete k xs = filter (\<lambda>x. fst x \<noteq> k) xs"
  by (induction xs) (auto simp: AList.delete_eq)

lemma delete_is_filter:
  assumes "distinct (map fst xs)" "e \<in> set xs"
  shows "AList.delete (fst e) xs = filter (\<lambda>x. x \<noteq> e) xs"
proof -
  have "fst x \<noteq> fst e \<longleftrightarrow> x \<noteq> e" if "x \<in> set xs" for x
    using assms that by (metis eq_key_imp_eq_value prod.collapse)
  then show ?thesis
    unfolding delete_filter_fst by (intro filter_cong) auto
qed

lemma delete_first:
  assumes "distinct (map fst xs)" "xs \<noteq> []"
  shows "AList.delete (fst (hd (byLastAccessed xs))) xs = evictPrefix 1 xs"
proof -
  let ?L = "byLastAccessed xs"
  from assms(2) have ne: "?L \<noteq> []" using byLastAccessed_basics(2)[of xs] by auto
  then have t: "take 1 ?L = [hd ?L]" by (cases ?L) auto
  from ne have "hd ?L \<in> set xs" using byLastAccessed_basics(1)[of xs] by (metis hd_in_set)
  from delete_is_filter[OF assms(1) this] t show ?thesis
    by (auto simp: evictPrefix_def intro: filter_cong)
qed

lemma evicted_before_survivors:
  assumes "distinct xs" "e \<in> set (take m (byLastAccessed xs))" "s \<in> set (evictPrefix m xs)"
  shows "lastAccessed e \<le> lastAccessed s"
proof -
  let ?L = "byLastAccessed xs"
  have "ordered (take m ?L @ drop m ?L)"
    by (simp only: append_take_drop_id ordered_byLastAccessed)
  then have "\<forall>a\<in>set (take m ?L). \<forall>b\<in>set (drop m ?L). lastAccessed a \<le> lastAccessed b"
    by (simp only: sorted_wrt_append) blast
  with assms(2) assms(3)[unfolded set_evictPrefix[OF assms(1)]] show ?thesis by blast
qed

lemma sortedItems_eq: "sortedItems c = byLastAccessed (memoryCache c)"
  by (simp add: sortedItems_def byLastAccessed_def)

lemma removeCount_le: "removeCount n \<le> n"
  by (simp add: removeCount_def)

lemma distinct_evictPrefix: "distinct (map fst xs) \<Longrightarrow> distinct (map fst (evictPrefix m xs))"
  by (simp add: evictPrefix_def distinct_map_filter)

lemma remove_fuel_absent:
  "map_of (memoryCache c) k = None \<Longrightarrow> remove_fuel n env k c = Some (c', b) \<Longrightarrow> c' = c"
  by (cases n) auto

lemma evicted_key_absent:
  assumes d: "distinct (map fst xs)" and i: "i < j" "i < length xs"
  shows "map_of (evictPrefix j xs) (fst (byLastAccessed xs ! i)) = None"
proof -
  let ?L = "byLastAccessed xs"
  let ?e = "?L ! i"
  from i have len: "i < length ?L" by (simp add: byLastAccessed_basics)
  then have e_in: "?e \<in> set xs" using byLastAccessed_basics(1)[of xs] nth_mem by blast
  from len i have e_take: "?e \<in> set (take j ?L)"
    by (metis in_set_conv_nth length_take min_less_iff_conj nth_take)
  have "x \<notin> set (evictPrefix j xs)" if "fst x = fst ?e" for x
  proof
    assume x: "x \<in> set (evictPrefix j xs)"
    then have "x \<in> set xs" by (simp add: evictPrefix_def)
    with d e_in that have "x = ?e" by (metis eq_key_imp_eq_value prod.collapse)
    with x e_take show False by (simp add: evictPrefix_def)
  qed
  then show ?thesis by (force simp: map_of_eq_None_iff)
qed

text \<open>The loop of \<open>cleanupOldItems\<close>, from its \<open>i\<close>-th key on, in a state from which
  the first \<open>j\<close> entries have gone.\<close>

lemma sweep_loop:
  assumes head: "\<And>c c' b. distinctKeys c \<Longrightarrow> memoryCache c \<noteq> [] \<Longrightarrow>
        remove_fuel n env (fst (hd (sortedItems c))) c = Some (c', b) \<Longrightarrow>
        \<exists>m. 1 \<le> m \<and> m \<le> length (memoryCache c) \<and> memoryCache c' = evictPrefix m (memoryCache c)"
    and d: "distinct (map fst xs)" and r: "r \<le> length xs"
  shows "i \<le> j \<Longrightarrow> j \<le> length xs \<Longrightarrow> i \<le> r \<Longrightarrow> memoryCache cj = evictPrefix j xs \<Longrightarrow>
         forEach (\<lambda>k c'. map_option fst (remove_fuel n env k c'))
           (map fst (drop i (take r (byLastAccessed xs)))) cj = Some c' \<Longrightarrow>
         \<exists>m. j \<le> m \<and> r \<le> m \<and> m \<le> length xs \<and> memoryCache c' = evictPrefix m xs"
proof (induction "r - i" arbitrary: i j cj)
  case 0
  then have "i = r" by simp
  with 0 show ?case by auto
next
  case (Suc d')
  let ?L = "byLastAccessed xs"
  from Suc.hyps(2) have ir: "i < r" by simp
  with r have il: "i < length ?L" "i < length (take r ?L)" by (simp_all add: byLastAccessed_basics)
  have split: "drop i (take r ?L) = ?L ! i # drop (Suc i) (take r ?L)"
    using il(2) ir by (metis Cons_nth_drop_Suc nth_take)
  from Suc.prems(5) obtain c2 b where
    step: "remove_fuel n env (fst (?L ! i)) cj = Some (c2, b)"
    and rest: "forEach (\<lambda>k c'. map_option fst (remove_fuel n env k c'))
           (map fst (drop (Suc i) (take r ?L))) c2 = Some c'"
    unfolding split by (auto split: option.splits)
  have dx: "distinct xs" using d by (rule distinct_map[THEN iffD1, THEN conjunct1])
  have m: "d' = r - Suc i" using Suc.hyps(2) by simp
  show ?case
  proof (cases "i < j")
    case True
    from evicted_key_absent[OF d True] il(1) Suc.prems(4)
    have "map_of (memoryCache cj) (fst (?L ! i)) = None" by (simp add: byLastAccessed_basics)
    from remove_fuel_absent[OF this step] have "c2 = cj" .
    with Suc.hyps(1)[OF m, of j cj] True Suc.prems ir rest show ?thesis by auto
  next
    case False
    with Suc.prems(1) have ji: "j = i" by simp
    have dj: "distinctKeys cj"
      using d Suc.prems(4) by (simp add: distinctKeys_def distinct_evictPrefix)
    have sj: "sortedItems cj = drop i ?L"
      using Suc.prems(4) ji by (simp add: sortedItems_eq byLastAccessed_evictPrefix[OF dx])
    have lenj: "length (memoryCache cj) = length xs - i"
      using Suc.prems(4) ji by (simp add: length_evictPrefix[OF dx])
    with il(1) have ne: "memoryCache cj \<noteq> []" by (auto simp: byLastAccessed_basics)
    have "hd (sortedItems cj) = ?L ! i" using il(1) by (simp add: sj hd_drop_conv_nth)
    with head[OF dj ne, of c2 b] step obtain m' where
      m': "1 \<le> m'" "m' \<le> length (memoryCache cj)" "memoryCache c2 = evictPrefix m' (memoryCache cj)"
      by auto
    from m'(3) Suc.prems(4) ji have c2: "memoryCache c2 = evictPrefix (i + m') xs"
      by (simp add: evictPrefix_evictPrefix[OF dx])
    from m'(1,2) lenj il(1) have b: "Suc i \<le> i + m'" "i + m' \<le> length xs"
      by (simp_all add: byLastAccessed_basics)
    from Suc.hyps(1)[OF m, of "i + m'" c2] b c2 ir rest obtain m where
      "i + m' \<le> m" "r \<le> m" "m \<le> length xs" "memoryCache c' = evictPrefix m xs" by auto
    with ji m'(1) show ?thesis by (intro exI[of _ m]) simp
  qed
qed

lemma sweep_prefix:
  "(\<forall>c c' b. distinctKeys c \<longrightarrow> memoryCache c \<noteq> [] \<longrightarrow>
        remove_fuel n env (fst (hd (sortedItems c))) c = Some (c', b) \<longrightarrow>
        (\<exists>m. 1 \<le> m \<and> m \<le> length (memoryCache c) \<and> memoryCache c' = evictPrefix m (memoryCache c))) \<and>
   (\<forall>c c'. distinctKeys c \<longrightarrow> cleanupOldItems_fuel n env c = Some c' \<longrightarrow>
        (\<exists>m. removeCount (length (memoryCache c)) \<le> m \<and> m \<le> length (memoryCache c) \<and>
             memoryCache c' = evictPrefix m (memoryCache c))) \<and>
   (\<forall>c c'. distinctKeys c \<longrightarrow> saveToStorage_fuel n env c = Some c' \<longrightarrow>
        (\<exists>m. m \<le> length (memoryCache c) \<and> memoryCache c' = evictPrefix m (memoryCache c)))"
  (is "?R n \<and> ?C n \<and> ?S n")
proof (induction n)
  case 0
  have r: "?R 0" by simp
  have c: "?C n" if "?R n" for n
  proof (intro allI impI)
    fix c c' :: "'a CacheService"
    assume dk: "distinctKeys c" and cl: "cleanupOldItems_fuel n env c = Some c'"
    let ?xs = "memoryCache c"
    from cl have "forEach (\<lambda>k c'. map_option fst (remove_fuel n env k c'))
           (map fst (drop 0 (take (removeCount (length ?xs)) (byLastAccessed ?xs)))) c = Some c'"
      by (simp add: cleanupOldItems_fuel.simps sortedItems_eq)
    from sweep_loop[where i = 0 and j = 0 and cj = c and xs = ?xs, OF _ _ removeCount_le _ _ _ _ this]
      that dk
    show "\<exists>m. removeCount (length ?xs) \<le> m \<and> m \<le> length ?xs \<and> memoryCache c' = evictPrefix m ?xs"
      by (auto simp: distinctKeys_def evictPrefix_0)
  qed
  have s: "?S n" if "?C n" for n
  proof (intro allI impI)
    fix c c' :: "'a CacheService"
    assume dk: "distinctKeys c" and sv: "saveToStorage_fuel n env c = Some c'"
    show "\<exists>m. m \<le> length (memoryCache c) \<and> memoryCache c' = evictPrefix m (memoryCache c)"
    proof (cases "cleanupOldItems_fuel n env c = Some c'")
      case True
      with that dk show ?thesis by blast
    next
      case False
      with sv have "c' = c" by (auto simp: saveToStorage_fuel.simps split: option.splits if_splits)
      then show ?thesis by (intro exI[of _ 0]) (simp add: evictPrefix_0)
    qed
  qed
  {
    case 0
    from r c[OF r] s[OF c[OF r]] show ?case by blast
  next
    case (Suc n)
    then have sn: "?S n" by blast
    have r': "?R (Suc n)"
    proof (intro allI impI)
      fix c c' :: "'a CacheService" and b
      assume dk: "distinctKeys c" and ne: "memoryCache c \<noteq> []"
        and rm: "remove_fuel (Suc n) env (fst (hd (sortedItems c))) c = Some (c', b)"
      let ?xs = "memoryCache c"
      let ?e = "hd (byLastAccessed ?xs)"
      from dk have d: "distinct (map fst ?xs)" by (simp add: distinctKeys_def)
      then have dx: "distinct ?xs" by (rule distinct_map[THEN iffD1, THEN conjunct1])
      from ne have "byLastAccessed ?xs \<noteq> []" using byLastAccessed_basics(2)[of ?xs] by auto
      then have "?e \<in> set ?xs" using byLastAccessed_basics(1)[of ?xs] by (metis hd_in_set)
      with d have look: "map_of ?xs (fst ?e) = Some (snd ?e)" by simp
      let ?c1 = "dropItem (fst ?e) (snd ?e) c"
      from rm look have sv: "saveToStorage_fuel n env ?c1 = Some c'"
        by (auto simp: sortedItems_eq split: option.splits)
      have m1: "memoryCache ?c1 = evictPrefix 1 ?xs"
        by (simp add: dropItem_def Let_def delete_first[OF d ne])
      then have "distinctKeys ?c1" using d by (simp add: distinctKeys_def distinct_evictPrefix)
      with sn sv obtain m where m: "m \<le> length (memoryCache ?c1)"
        "memoryCache c' = evictPrefix m (memoryCache ?c1)" by blast
      from m(1) m1 have "m \<le> length ?xs - 1" by (simp add: length_evictPrefix[OF dx])
      moreover from ne have "1 \<le> length ?xs" by (cases ?xs) simp_all
      ultimately have "1 + m \<le> length ?xs" by linarith
      moreover from m(2) m1 have "memoryCache c' = evictPrefix (1 + m) ?xs"
        by (simp add: evictPrefix_evictPrefix[OF dx])
      ultimately have "1 + m \<le> length ?xs" "memoryCache c' = evictPrefix (1 + m) ?xs"
        by simp_all
      then show "\<exists>m. 1 \<le> m \<and> m \<le> length ?xs \<and> memoryCache c' = evictPrefix m ?xs"
        by (intro exI[of _ "1 + m"]) simp
    qed
    from r' c[OF r'] s[OF c[OF r']] show ?case by blast
  }
qed

lemmas head_prefix = sweep_prefix[THEN conjunct1, rule_format]

lemmas cleanup_prefix = sweep_prefix[THEN conjunct2, THEN conjunct1, rule_format]

lemma remove_head_fits:
  assumes dk: "distinctKeys c" and ne: "memoryCache c \<noteq> []"
    and fits: "snapshotFits env (evictPrefix 1 (memoryCache c))"
    and rm: "remove_fuel n env (fst (hd (sortedItems c))) c = Some (c', b)"
  shows "memoryCache c' = evictPrefix 1 (memoryCache c)"
proof (cases n)
  case 0
  with rm show ?thesis by simp
next
  case (Suc n')
  let ?xs = "memoryCache c"
  let ?e = "hd (byLastAccessed ?xs)"
  from dk have d: "distinct (map fst ?xs)" by (simp add: distinctKeys_def)
  from ne have "byLastAccessed ?xs \<noteq> []" using byLastAccessed_basics(2)[of ?xs] by auto
  then have "?e \<in> set ?xs" using byLastAccessed_basics(1)[of ?xs] by (metis hd_in_set)
  with d have look: "map_of ?xs (fst ?e) = Some (snd ?e)" by simp
  let ?c1 = "dropItem (fst ?e) (snd ?e) c"
  from rm look Suc have sv: "saveToStorage_fuel n' env ?c1 = Some c'"
    by (auto simp: sortedItems_eq split: option.splits)
  have m1: "memoryCache ?c1 = evictPrefix 1 ?xs"
    by (simp add: dropItem_def Let_def delete_first[OF d ne])
  with fits sv have "c' = ?c1"
    by (auto simp: saveToStorage_fuel.simps snapshotFits_def split: option.splits if_splits)
  with m1 show ?thesis by simp
qed

lemma sweep_loop_exact:
  assumes d: "distinct (map fst xs)" and r: "r \<le> length xs"
    and fits: "\<forall>j. 1 \<le> j \<and> j \<le> r \<longrightarrow> snapshotFits env (evictPrefix j xs)"
  shows "i \<le> r \<Longrightarrow> memoryCache ci = evictPrefix i xs \<Longrightarrow>
         forEach (\<lambda>k c'. map_option fst (remove_fuel n env k c'))
           (map fst (drop i (take r (byLastAccessed xs)))) ci = Some c' \<Longrightarrow>
         memoryCache c' = evictPrefix r xs"
proof (induction "r - i" arbitrary: i ci)
  case 0
  then have "i = r" by simp
  with 0 show ?case by auto
next
  case (Suc d')
  let ?L = "byLastAccessed xs"
  from Suc.hyps(2) have ir: "i < r" by simp
  with r have il: "i < length ?L" "i < length (take r ?L)" by (simp_all add: byLastAccessed_basics)
  have split: "drop i (take r ?L) = ?L ! i # drop (Suc i) (take r ?L)"
    using il(2) ir by (metis Cons_nth_drop_Suc nth_take)
  from Suc.prems(3) obtain c2 b where
    step: "remove_fuel n env (fst (?L ! i)) ci = Some (c2, b)"
    and rest: "forEach (\<lambda>k c'. map_option fst (remove_fuel n env k c'))
           (map fst (drop (Suc i) (take r ?L))) c2 = Some c'"
    unfolding split by (auto split: option.splits)
  have dx: "distinct xs" using d by (rule distinct_map[THEN iffD1, THEN conjunct1])
  have m: "d' = r - Suc i" using Suc.hyps(2) by simp
  have di: "distinctKeys ci"
    using d Suc.prems(2) by (simp add: distinctKeys_def distinct_evictPrefix)
  have si: "sortedItems ci = drop i ?L"
    using Suc.prems(2) by (simp add: sortedItems_eq byLastAccessed_evictPrefix[OF dx])
  have "length (memoryCache ci) = length xs - i"
    using Suc.prems(2) by (simp add: length_evictPrefix[OF dx])
  with il(1) have ne: "memoryCache ci \<noteq> []" by (auto simp: byLastAccessed_basics)
  have hd: "hd (sortedItems ci) = ?L ! i" using il(1) by (simp add: si hd_drop_conv_nth)
  from fits ir have "snapshotFits env (evictPrefix (i + 1) xs)" by simp
  then have "snapshotFits env (evictPrefix 1 (memoryCache ci))"
    using Suc.prems(2) by (simp add: evictPrefix_evictPrefix[OF dx])
  from remove_head_fits[OF di ne this, of n c2 b] step hd Suc.prems(2)
  have "memoryCache c2 = evictPrefix (Suc i) xs"
    by (simp add: evictPrefix_evictPrefix[OF dx])
  from Suc.hyps(1)[OF m _ this rest] ir show ?case by simp
qed

lemma remove_fuel_numeral:
  "remove_fuel (numeral v) env k c =
     (case map_of (memoryCache c) k of
        None \<Rightarrow> Some (c, False)
      | Some item \<Rightarrow>
          (case saveToStorage_fuel (pred_numeral v) env (dropItem k item c) of
             None \<Rightarrow> None
           | Some c' \<Rightarrow> Some (c', True)))"
  by (simp add: numeral_eq_Suc)

lemma tie_size: "calculateSize asciiPlatform tieValue = 20"
  by (simp add: platform_simps tieValue_def)


lemma tie_new: "newCacheService tieConfig None 0 = tieCacheWith []"
  by (simp add: newCacheService_def loadFromStorage_def tieCacheWith_def initialStats_def)

lemmas tie_eval = set_cache_def Let_def tie_size ttlOrDefault_def wouldExceedStorageLimit_def
  storeAndSave_def storeItem_def saveToStorage_fuel.simps MAX_STORAGE_SIZE_def platform_simps
  tieCacheWith_def tieItem_def tieConfig_def initialStats_def DEFAULT_CACHE_CONFIG_def
  newCacheItem_def tieValue_def

lemma tie_step1:
  "set_cache asciiPlatform ''k1'' tieValue None 1000 (tieCacheWith []) =
     Some (tieCacheWith (take 1 tieEntries), True)"
  by (simp add: tieEntries_def) (simp add: tie_eval)

lemma tie_step2:
  "set_cache asciiPlatform ''k2'' tieValue None 1000 (tieCacheWith (take 1 tieEntries)) =
     Some (tieCacheWith (take 2 tieEntries), True)"
  by (simp add: tieEntries_def) (simp add: tie_eval)

lemma tie_step3:
  "set_cache asciiPlatform ''k3'' tieValue None 1000 (tieCacheWith (take 2 tieEntries)) =
     Some (tieCacheWith (take 3 tieEntries), True)"
  by (simp add: tieEntries_def) (simp add: tie_eval)

lemma tie_step4:
  "set_cache asciiPlatform ''k4'' tieValue None 1000 (tieCacheWith (take 3 tieEntries)) =
     Some (tieCacheWith (take 4 tieEntries), True)"
  by (simp add: tieEntries_def) (simp add: tie_eval)

lemma tie_step5:
  "set_cache asciiPlatform ''k5'' tieValue None 1000 (tieCacheWith (take 4 tieEntries)) =
     Some (tieCache, True)"
  by (simp add: tieEntries_def tieCache_def) (simp add: tie_eval)

lemma tie_exceeds: "wouldExceedStorageLimit (calculateSize asciiPlatform tieValue) tieCache"
  by (simp add: tie_size wouldExceedStorageLimit_def tieCache_def tieCacheWith_def tieConfig_def
        initialStats_def tieEntries_def)

lemma tie_distinct: "distinctKeys tieCache"
  by (simp add: distinctKeys_def tieCache_def tieCacheWith_def tieEntries_def)

lemma tie_sorted: "byLastAccessed (memoryCache tieCache) = tieEntries"
  by (simp add: byLastAccessed_def sortBy_def tieCache_def tieCacheWith_def tieEntries_def
        compareLastAccessed_def tieItem_def newCacheItem_def)

lemma tie_fuel: "fuel tieCache = 7"
  by (simp add: fuel_def tieCache_def tieCacheWith_def tieEntries_def)

lemma tie_length: "length (memoryCache tieCache) = 5"
  by (simp add: tieCache_def tieCacheWith_def tieEntries_def)

lemma tie_sweep: "cleanupOldItems_fuel 7 asciiPlatform tieCache = Some tieSwept"
  by (simp add: cleanupOldItems_fuel.simps sortedItems_eq tie_sorted tie_length
        removeCount_def)
     (simp add: tieEntries_def remove_fuel_numeral dropItem_def AList.delete_eq tie_eval
        tieCache_def tieSwept_def)

lemma tie_set:
  "set_cache asciiPlatform ''k6'' tieValue None 2000 tieCache = Some (tieResult, True)"
  using tie_exceeds
  by (simp add: set_cache_def Let_def tie_sweep tie_size tie_fuel)
     (simp add: tieSwept_def tieResult_def tieEntries_def tieCache_def tie_eval)




lemma tie_times:
  "accessTimes tieCache = [(''k1'', 1000), (''k2'', 1000), (''k3'', 1000), (''k4'', 1000), (''k5'', 1000)]"
  "accessTimes tieResult = [(''k2'', 1000), (''k3'', 1000), (''k4'', 1000), (''k5'', 1000), (''k6'', 2000)]"
  by (simp_all add: accessTimes_def tieCache_def tieResult_def tieCacheWith_def tieEntries_def
        tieItem_def newCacheItem_def)

lemma forEach_mono:
  assumes "\<And>x s s'. f x s = Some s' \<Longrightarrow> g x s = Some s'"
  shows "forEach f xs s = Some s' \<Longrightarrow> forEach g xs s = Some s'"
proof (induction xs arbitrary: s)
  case Nil
  then show ?case by simp
next
  case (Cons x xs)
  then obtain s1 where s1: "f x s = Some s1" "forEach f xs s1 = Some s'"
    by (auto split: option.splits)
  from assms[OF s1(1)] Cons.IH[OF s1(2)] show ?case by simp
qed

text \<open>More fuel does not change a result: the bound is not part of the behaviour.\<close>

lemma fuel_mono:
  "(\<forall>k c r. remove_fuel n env k c = Some r \<longrightarrow> remove_fuel (n + d) env k c = Some r) \<and>
   (\<forall>c c'. cleanupOldItems_fuel n env c = Some c' \<longrightarrow> cleanupOldItems_fuel (n + d) env c = Some c') \<and>
   (\<forall>c c'. saveToStorage_fuel n env c = Some c' \<longrightarrow> saveToStorage_fuel (n + d) env c = Some c')"
  (is "?R n \<and> ?C n \<and> ?S n")
proof (induction n)
  case 0
  have c: "?C n" if "?R n" for n
  proof (intro allI impI)
    fix c c' :: "'a CacheService"
    assume "cleanupOldItems_fuel n env c = Some c'"
    then have "forEach (\<lambda>k c'. map_option fst (remove_fuel n env k c'))
       (map fst (take (removeCount (length (memoryCache c))) (sortedItems c))) c = Some c'"
      by (simp add: cleanupOldItems_fuel.simps)
    then have "forEach (\<lambda>k c'. map_option fst (remove_fuel (n + d) env k c'))
       (map fst (take (removeCount (length (memoryCache c))) (sortedItems c))) c = Some c'"
      by (rule forEach_mono[rotated]) (use that in auto)
    then show "cleanupOldItems_fuel (n + d) env c = Some c'"
      by (simp add: cleanupOldItems_fuel.simps)
  qed
  have s: "?S n" if "?C n" for n
    using that by (auto simp: saveToStorage_fuel.simps split: option.splits)
  {
    case 0
    have "?R 0" by simp
    from this c[OF this] s[OF c[OF this]] show ?case by blast
  next
    case (Suc n)
    then have sn: "?S n" by blast
    have r: "?R (Suc n)"
    proof (intro allI impI)
      fix k r and c :: "'a CacheService"
      assume a: "remove_fuel (Suc n) env k c = Some r"
      show "remove_fuel (Suc n + d) env k c = Some r"
      proof (cases "map_of (memoryCache c) k")
        case None
        with a show ?thesis by simp
      next
        case (Some item)
        with a obtain c' where "saveToStorage_fuel n env (dropItem k item c) = Some c'" "r = (c', True)"
          by (auto split: option.splits)
        with sn Some show ?thesis by simp
      qed
    qed
    from r c[OF r] s[OF c[OF r]] show ?case by blast
  }
qed


section \<open>The claims about the request queue\<close>

text \<open>
  Claim C1. For every request enqueued with \<open>addRequest(request, handler, options)\<close> the
  queue invokes \<open>handler(request)\<close> while processing the item; on success the item's
  result is the handler's value, \<open>completedAt\<close> is stamped, the average processing time
  is updated, and the caller's promise resolves with the handler's result.

  The code stamps \<open>completedAt\<close> and completes the item, but it never calls the handler:
  for the request \<open>''What is X?''\<close> with a handler that answers \<open>''X is Y''\<close>, the
  stored result stays undefined and the promise resolves with undefined.
\<close>

theorem handler_result_dropped:
  "exHandler ''What is X?'' = ''X is Y'' \<and>
   checkCompletion ''req_1'' exHandler exCompleted = Resolved None \<and>
   map status (queue exCompleted) = [COMPLETED] \<and>
   map result (queue exCompleted) = [None] \<and>
   map completedAt (queue exCompleted) = [Some 6]"
  by (simp add: exHandler_def checkCompletion_def exCompleted_queue exItem_def newQueueItem_def)


text \<open>
  Claim C3. With \<open>maxRetries = 3\<close>, \<open>retryDelay = 1000\<close>, exponential backoff and
  \<open>maxRetryDelay = 30000\<close>, an item whose processing fails with a retryable error on
  every attempt is scheduled to re-enter \<open>PENDING\<close> after exactly 1000 ms, 2000 ms and
  4000 ms following the first three failures, and the fourth failure makes it \<open>FAILED\<close>
  with no further retry.
\<close>

theorem retry_backoff_schedule:
  assumes pol: "retryPolicy item0 =
      \<lparr>maxRetries = 3, retryDelay = 1000, useExponentialBackoff = True, maxRetryDelay = 30000\<rparr>"
    and fresh: "retryCount item0 = 0"
    and r1: "retryable (createApiError e1) = Some True"
    and r2: "retryable (createApiError e2) = Some True"
    and r3: "retryable (createApiError e3) = Some True"
  shows "let f1 = handleRequestError item0 e1 t1 st0;
             f2 = handleRequestError (readmitted (fst f1) u1) e2 t2 (fst (snd f1));
             f3 = handleRequestError (readmitted (fst f2) u2) e3 t3 (fst (snd f2));
             f4 = handleRequestError (readmitted (fst f3) u3) e4 t4 (fst (snd f3))
         in snd (snd f1) = Some 1000 \<and> status (fst f1) = RETRYING \<and>
            status (retryTimerFired (fst f1)) = PENDING \<and>
            snd (snd f2) = Some 2000 \<and> status (fst f2) = RETRYING \<and>
            status (retryTimerFired (fst f2)) = PENDING \<and>
            snd (snd f3) = Some 4000 \<and> status (fst f3) = RETRYING \<and>
            status (retryTimerFired (fst f3)) = PENDING \<and>
            snd (snd f4) = None \<and> status (fst f4) = FAILED"
proof -
  obtain item1 st1 d1 where f1: "handleRequestError item0 e1 t1 st0 = (item1, st1, d1)"
    by (cases "handleRequestError item0 e1 t1 st0") auto
  obtain item2 st2 d2 where f2: "handleRequestError (readmitted item1 u1) e2 t2 st1 = (item2, st2, d2)"
    by (cases "handleRequestError (readmitted item1 u1) e2 t2 st1") auto
  obtain item3 st3 d3 where f3: "handleRequestError (readmitted item2 u2) e3 t3 st2 = (item3, st3, d3)"
    by (cases "handleRequestError (readmitted item2 u2) e3 t3 st2") auto
  obtain item4 st4 d4 where f4: "handleRequestError (readmitted item3 u3) e4 t4 st3 = (item4, st4, d4)"
    by (cases "handleRequestError (readmitted item3 u3) e4 t4 st3") auto
  have i1: "retryCount item1 = 1 \<and> retryPolicy item1 = retryPolicy item0 \<and> status item1 = RETRYING"
    and d1: "d1 = Some 1000"
    using f1 pol fresh r1
    by (auto simp: handleRequestError_def Let_def calculateRetryDelay_def pow2_small)
  have i2: "retryCount item2 = 2 \<and> retryPolicy item2 = retryPolicy item0 \<and> status item2 = RETRYING"
    and d2: "d2 = Some 2000"
    using f2 pol r2 i1
    by (auto simp: handleRequestError_def Let_def calculateRetryDelay_def pow2_small
          readmitted_def retryTimerFired_def)
  have i3: "retryCount item3 = 3 \<and> retryPolicy item3 = retryPolicy item0 \<and> status item3 = RETRYING"
    and d3: "d3 = Some 4000"
    using f3 pol r3 i2
    by (auto simp: handleRequestError_def Let_def calculateRetryDelay_def pow2_small
          readmitted_def retryTimerFired_def)
  have i4: "status item4 = FAILED" and d4: "d4 = None"
    using f4 pol i3
    by (auto simp: handleRequestError_def Let_def readmitted_def retryTimerFired_def)
  show ?thesis using i1 d1 i2 d2 i3 d3 i4 d4
    by (simp add: Let_def f1 f2 f3 f4 retryTimerFired_def)
qed


text \<open>The schedule for a request that meets the network error \<open>''network down''\<close>
  four times.\<close>

theorem retry_backoff_schedule_witness:
  "let e = rawError ''network down'';
       f1 = handleRequestError exItem e 10 emptyStats;
       f2 = handleRequestError (readmitted (fst f1) 1100) e 1110 (fst (snd f1));
       f3 = handleRequestError (readmitted (fst f2) 3200) e 3210 (fst (snd f2));
       f4 = handleRequestError (readmitted (fst f3) 7300) e 7310 (fst (snd f3))
   in retryable (createApiError e) = Some True \<and> retryAfter (createApiError e) = None \<and>
      snd (snd f1) = Some 1000 \<and> status (fst f1) = RETRYING \<and>
      status (retryTimerFired (fst f1)) = PENDING \<and>
      snd (snd f2) = Some 2000 \<and> status (fst f2) = RETRYING \<and>
      status (retryTimerFired (fst f2)) = PENDING \<and>
      snd (snd f3) = Some 4000 \<and> status (fst f3) = RETRYING \<and>
      status (retryTimerFired (fst f3)) = PENDING \<and>
      snd (snd f4) = None \<and> status (fst f4) = FAILED"
proof -
  have r: "retryable (createApiError (rawError ''network down'')) = Some True"
    and a: "retryAfter (createApiError (rawError ''network down'')) = None"
    by (simp_all add: classify_network)
  from retry_backoff_schedule[OF exItem_simps r r r, of 10 emptyStats 1100 1110 3200 3210 7300 "rawError ''network down''" 7310] r a
  show ?thesis by (simp add: Let_def)
qed


text \<open>
  Claim C4, as amended. No enqueueing and no iteration of the processing loop changes an
  item whose status is terminal (\<open>COMPLETED\<close>, \<open>FAILED\<close> or \<open>CANCELLED\<close>), and no
  \<open>cancelRequest\<close> changes a completed item; \<open>cancelRequest(id)\<close> on a completed
  item leaves the queue as it is and returns false. On a failed or cancelled item
  \<open>cancelRequest(id)\<close> returns true, sets the status \<open>CANCELLED\<close> and stamps
  \<open>completedAt\<close> again.
\<close>

theorem terminal_items_amended:
  "(\<forall>x\<in>set (queue s). terminal (status x) \<longrightarrow>
       x \<in> set (queue (addRequest new_id now req handler opts s)) \<and>
       x \<in> set (queue (loopIteration t1 t2 s)))
   \<and> (\<forall>x\<in>set (queue s). status x = COMPLETED \<longrightarrow> x \<in> set (queue (fst (cancelRequest j now s))))
   \<and> (\<forall>k. firstIndex (\<lambda>q. qid q = i) (queue s) = Some k \<longrightarrow>
         (status (queue s ! k) = COMPLETED \<longrightarrow> cancelRequest i now s = (s, False)) \<and>
         (status (queue s ! k) = FAILED \<or> status (queue s ! k) = CANCELLED \<longrightarrow>
            cancelRequest i now s =
              (s\<lparr>queue := (queue s)[k := (queue s ! k)\<lparr>status := CANCELLED, completedAt := Some now\<rparr>]\<rparr>,
               True)))"
proof (intro conjI ballI allI impI)
  fix x assume "x \<in> set (queue s)" "terminal (status x)"
  then show "x \<in> set (queue (addRequest new_id now req handler opts s))"
    by (simp add: addRequest_keeps)
next
  fix x assume "x \<in> set (queue s)" "terminal (status x)"
  then show "x \<in> set (queue (loopIteration t1 t2 s))"
    by (auto simp: terminal_def intro: loopIteration_keeps)
next
  fix x assume "x \<in> set (queue s)" "status x = COMPLETED"
  then show "x \<in> set (queue (fst (cancelRequest j now s)))"
    by (rule cancelRequest_keeps)
next
  fix k assume "firstIndex (\<lambda>q. qid q = i) (queue s) = Some k" "status (queue s ! k) = COMPLETED"
  then show "cancelRequest i now s = (s, False)"
    by (simp add: cancelRequest_def)
next
  fix k assume "firstIndex (\<lambda>q. qid q = i) (queue s) = Some k"
    "status (queue s ! k) = FAILED \<or> status (queue s ! k) = CANCELLED"
  then show "cancelRequest i now s =
    (s\<lparr>queue := (queue s)[k := (queue s ! k)\<lparr>status := CANCELLED, completedAt := Some now\<rparr>]\<rparr>, True)"
    by (auto simp: cancelRequest_def)
qed


text \<open>On the queue whose only request has completed.\<close>

theorem terminal_items_amended_witness:
  "firstIndex (\<lambda>q. qid q = ''req_1'') (queue exCompleted) = Some 0 \<and>
   status (queue exCompleted ! 0) = COMPLETED \<and>
   queue exCompleted ! 0 \<in> set (queue exCompleted) \<and>
   cancelRequest ''req_1'' 20 exCompleted = (exCompleted, False) \<and>
   queue exCompleted ! 0 \<in> set (queue (addRequest ''req_2'' 20 ''What is Z?'' exHandler noOptions exCompleted)) \<and>
   queue exCompleted ! 0 \<in> set (queue (loopIteration 105 106 exCompleted)) \<and>
   queue exCompleted ! 0 \<in> set (queue (fst (cancelRequest ''req_1'' 20 exCompleted)))"
proof -
  have f: "firstIndex (\<lambda>q. qid q = ''req_1'') (queue exCompleted) = Some 0"
    and c: "status (queue exCompleted ! 0) = COMPLETED"
    and m: "queue exCompleted ! 0 \<in> set (queue exCompleted)"
    by (simp_all add: exCompleted_queue exItem_def newQueueItem_def)
  from c have t: "terminal (status (queue exCompleted ! 0))" by (simp add: terminal_def)
  from terminal_items_amended[of exCompleted "''req_2''" 20 "''What is Z?''" exHandler noOptions
          105 106 "''req_1''" "''req_1''"] f c m t
  show ?thesis by blast
qed


text \<open>
  Claim C4 as stated fails: a pending request is cancelled at time 10; it is now in the
  terminal state \<open>CANCELLED\<close>. A second \<open>cancelRequest\<close> at time 20 returns true and
  moves \<open>completedAt\<close> from 10 to 20.
\<close>

theorem cancel_cancelled_counterexample:
  "map status (queue exCancelled) = [CANCELLED] \<and>
   map completedAt (queue exCancelled) = [Some 10] \<and>
   snd (cancelRequest ''req_1'' 20 exCancelled) = True \<and>
   map completedAt (queue (fst (cancelRequest ''req_1'' 20 exCancelled))) = [Some 20]"
  by (simp add: cancelRequest_def exCancelled_queue exItem_def newQueueItem_def)


text \<open>
  Claim C5. Whenever a processing slot is free, the item admitted next is the pending item
  with the smallest priority value, ties broken by the smallest \<open>createdAt\<close>; four
  items enqueued with priorities 2, 0, 1, 0 at strictly increasing times are admitted in the
  order second, fourth, third, first.

  In every reachable state in which the loop runs and a slot is free, the loop iteration
  processes the item \<open>getNextPendingItem\<close> returns; that item is pending and precedes
  every pending item of the queue, and an item is returned whenever one is pending. For the
  four requests, the stamps after each of four loop iterations are listed.
\<close>

theorem admission_by_priority:
  assumes "ta < tb" "tb < tc" "tc < td"
  shows "(\<forall>s :: ('req, 'res) RequestQueue. \<forall>i t1 t2.
            reachable s \<and> isProcessing s \<and> slotFree s \<and> getNextPendingItem s = Some i \<longrightarrow>
              loopIteration t1 t2 s = processRequest i t1 t2 s \<and>
              i < length (queue s) \<and> status (queue s ! i) = PENDING \<and>
              (\<forall>y\<in>set (queue s). status y = PENDING \<longrightarrow> precedes (queue s ! i) y) \<and>
              (\<forall>s1. processRequestStart i t1 s = Some s1 \<longrightarrow>
                  queue s1 = (queue s)[i := (queue s ! i)\<lparr>status := PROCESSING, startedAt := Some t1\<rparr>]))
       \<and> (\<forall>s :: ('req, 'res) RequestQueue.
            reachable s \<and> (\<exists>y\<in>set (queue s). status y = PENDING) \<longrightarrow> getNextPendingItem s \<noteq> None)
       \<and> stamps (fourRequests a b c d ta tb tc td (req :: 'req) (h :: 'req \<Rightarrow> 'res)) =
           [(b, PENDING, None), (d, PENDING, None), (c, PENDING, None), (a, PENDING, None)]
       \<and> stamps (loopIteration u1 v1 (fourRequests a b c d ta tb tc td req h)) =
           [(b, COMPLETED, Some u1), (d, PENDING, None), (c, PENDING, None), (a, PENDING, None)]
       \<and> stamps (loopIteration u2 v2 (loopIteration u1 v1 (fourRequests a b c d ta tb tc td req h))) =
           [(b, COMPLETED, Some u1), (d, COMPLETED, Some u2), (c, PENDING, None), (a, PENDING, None)]
       \<and> stamps (loopIteration u3 v3 (loopIteration u2 v2 (loopIteration u1 v1
            (fourRequests a b c d ta tb tc td req h)))) =
           [(b, COMPLETED, Some u1), (d, COMPLETED, Some u2), (c, COMPLETED, Some u3), (a, PENDING, None)]
       \<and> stamps (loopIteration u4 v4 (loopIteration u3 v3 (loopIteration u2 v2 (loopIteration u1 v1
            (fourRequests a b c d ta tb tc td req h))))) =
           [(b, COMPLETED, Some u1), (d, COMPLETED, Some u2), (c, COMPLETED, Some u3),
            (a, COMPLETED, Some u4)]"
proof -
  have general: "loopIteration t1 t2 s = processRequest i t1 t2 s \<and>
              i < length (queue s) \<and> status (queue s ! i) = PENDING \<and>
              (\<forall>y\<in>set (queue s). status y = PENDING \<longrightarrow> precedes (queue s ! i) y) \<and>
              (\<forall>s1. processRequestStart i t1 s = Some s1 \<longrightarrow>
                  queue s1 = (queue s)[i := (queue s ! i)\<lparr>status := PROCESSING, startedAt := Some t1\<rparr>])"
    if r: "reachable s" "isProcessing s" "slotFree s" "getNextPendingItem s = Some i"
    for s :: "('req, 'res) RequestQueue" and i t1 t2
  proof -
    from r(4) have f: "firstIndex (\<lambda>x. status x = PENDING) (queue s) = Some i"
      by (simp add: getNextPendingItem_def)
    from r(2,3,4) have "loopIteration t1 t2 s = processRequest i t1 t2 s"
      by (simp add: loopIteration_def slotFree_def)
    moreover note getNextPendingItem_Some[OF r(4)]
    moreover have "\<forall>y\<in>set (queue s). status y = PENDING \<longrightarrow> precedes (queue s ! i) y"
      using first_pending_minimal[OF reachable_sorted[OF r(1)] f] by blast
    moreover have "\<forall>s1. processRequestStart i t1 s = Some s1 \<longrightarrow>
        queue s1 = (queue s)[i := (queue s ! i)\<lparr>status := PROCESSING, startedAt := Some t1\<rparr>]"
      by (simp add: processRequestStart_queue)
    ultimately show ?thesis by blast
  qed
  have some: "getNextPendingItem s \<noteq> None" if "\<exists>y\<in>set (queue s). status y = PENDING"
    for s :: "('req, 'res) RequestQueue"
    using that by (simp add: getNextPendingItem_def firstIndex_None)
  show ?thesis
    apply (intro conjI)
    subgoal using general by blast
    subgoal using some by blast
    subgoal by (rule four_requests_admission(1)[OF assms])
    subgoal by (rule four_requests_admission(2)[OF assms])
    subgoal by (rule four_requests_admission(3)[OF assms])
    subgoal by (rule four_requests_admission(4)[OF assms])
    subgoal by (rule four_requests_admission(5)[OF assms])
    done
qed



text \<open>On the queue with one pending request, and for the four requests enqueued at times
  1, 2, 3, 4 with loop iterations at 100, 200, 300, 400.\<close>

theorem admission_by_priority_witness:
  "reachable exQueue \<and> isProcessing exQueue \<and> slotFree exQueue \<and>
   getNextPendingItem exQueue = Some 0 \<and>
   exItem \<in> set (queue exQueue) \<and> status exItem = PENDING \<and>
   status (queue exQueue ! 0) = PENDING \<and> precedes (queue exQueue ! 0) exItem \<and>
   loopIteration 5 6 exQueue = processRequest 0 5 6 exQueue \<and>
   (1::int) < 2 \<and> (2::int) < 3 \<and> (3::int) < 4 \<and>
   stamps (loopIteration 400 401 (loopIteration 300 301 (loopIteration 200 201 (loopIteration 100 101
      (fourRequests ''a'' ''b'' ''c'' ''d'' 1 2 3 4 ''What is X?'' exHandler))))) =
     [(''b'', COMPLETED, Some 100), (''d'', COMPLETED, Some 200), (''c'', COMPLETED, Some 300),
      (''a'', COMPLETED, Some 400)]"
proof -
  have o: "(1::int) < 2" "(2::int) < 3" "(3::int) < 4" by simp_all
  have p: "isProcessing exQueue" "slotFree exQueue"
    "exItem \<in> set (queue exQueue)" "status exItem = PENDING"
    by (simp_all add: exQueue_rest slotFree_def exQueue_queue exItem_def newQueueItem_def)
  note t = admission_by_priority[OF o, where ?'req = string and ?'res = string and a = "''a''"
      and b = "''b''" and c = "''c''" and d = "''d''" and req = "''What is X?''" and h = exHandler
      and ?u1.0 = 100 and ?v1.0 = 101 and ?u2.0 = 200 and ?v2.0 = 201 and ?u3.0 = 300 and ?v3.0 = 301
      and ?u4.0 = 400 and ?v4.0 = 401]
  from t have g: "\<forall>s :: (string, string) RequestQueue. \<forall>i t1 t2.
            reachable s \<and> isProcessing s \<and> slotFree s \<and> getNextPendingItem s = Some i \<longrightarrow>
              loopIteration t1 t2 s = processRequest i t1 t2 s \<and>
              i < length (queue s) \<and> status (queue s ! i) = PENDING \<and>
              (\<forall>y\<in>set (queue s). status y = PENDING \<longrightarrow> precedes (queue s ! i) y) \<and>
              (\<forall>s1. processRequestStart i t1 s = Some s1 \<longrightarrow>
                  queue s1 = (queue s)[i := (queue s ! i)\<lparr>status := PROCESSING, startedAt := Some t1\<rparr>])"
    by (rule conjunct1)
  from g exQueue_reachable p exQueue_next
  have "loopIteration 5 6 exQueue = processRequest 0 5 6 exQueue \<and>
        status (queue exQueue ! 0) = PENDING \<and>
        (\<forall>y\<in>set (queue exQueue). status y = PENDING \<longrightarrow> precedes (queue exQueue ! 0) y)"
    by blast
  moreover from t have "stamps (loopIteration 400 401 (loopIteration 300 301 (loopIteration 200 201
      (loopIteration 100 101 (fourRequests ''a'' ''b'' ''c'' ''d'' 1 2 3 4 ''What is X?'' exHandler))))) =
     [(''b'', COMPLETED, Some 100), (''d'', COMPLETED, Some 200), (''c'', COMPLETED, Some 300),
      (''a'', COMPLETED, Some 400)]"
    by blast
  ultimately show ?thesis using exQueue_reachable p exQueue_next o by blast
qed


text \<open>
  Claim C6. With \<open>maxConcurrentRequests = 1\<close> no two distinct items hold the status
  \<open>PROCESSING\<close> at any instant; in general the number of items in processing never
  exceeds \<open>maxConcurrentRequests\<close>. The bound is shown for the number of items with
  status \<open>PROCESSING\<close> and for the size of the \<open>processing\<close> set, between
  operations and inside \<open>processRequest\<close>.
\<close>

theorem concurrency_ceiling:
  assumes "instant s"
  shows "processingCount s \<le> maxConcurrentRequests s \<and>
         card (processing s) \<le> maxConcurrentRequests s \<and>
         (maxConcurrentRequests s = 1 \<longrightarrow>
            (\<forall>i j. i < length (queue s) \<and> j < length (queue s) \<and>
                   status (queue s ! i) = PROCESSING \<and> status (queue s ! j) = PROCESSING
                   \<longrightarrow> i = j))"
proof -
  from instant_cases[OF assms] show ?thesis
  proof (elim disjE exE conjE)
    assume idle: "\<forall>x\<in>set (queue s). status x \<noteq> PROCESSING"
      and c: "card (processing s) \<le> maxConcurrentRequests s"
    then have "processingCount s = 0" by (simp add: processingCount_def filter_none)
    with idle c show ?thesis by auto
  next
    fix q0 :: "('a, 'b) QueueItem list" and i y
    assume q: "queue s = q0[i := y]" and idle: "\<forall>x\<in>set q0. status x \<noteq> PROCESSING"
      and m: "1 \<le> maxConcurrentRequests s" and c: "card (processing s) \<le> maxConcurrentRequests s"
    from idle have "filter (\<lambda>item. status item = PROCESSING) q0 = []" by (simp add: filter_none)
    with filter_update_one[of "\<lambda>item. status item = PROCESSING" q0 i y]
    have "processingCount s \<le> 1" by (simp add: processingCount_def q)
    moreover have "a = i" if "a < length q0" "status (q0[i := y] ! a) = PROCESSING" for a
      using that idle by (cases "a = i") auto
    ultimately show ?thesis using m c q by auto
  qed
qed



text \<open>Inside \<open>processRequest\<close> for the only request of a queue with one slot.\<close>

theorem concurrency_ceiling_witness:
  "instant exStarted \<and> maxConcurrentRequests exStarted = 1 \<and> processingCount exStarted = 1 \<and>
   processingCount exStarted \<le> maxConcurrentRequests exStarted \<and>
   card (processing exStarted) \<le> maxConcurrentRequests exStarted \<and>
   0 < length (queue exStarted) \<and> status (queue exStarted ! 0) = PROCESSING"
proof -
  have m: "maxConcurrentRequests exStarted = 1"
    using processRequestStart_queue[OF exStarted_eq] by (simp add: exQueue_rest)
  have c: "processingCount exStarted = 1"
    by (simp add: processingCount_def exStarted_queue)
  have p: "0 < length (queue exStarted)" "status (queue exStarted ! 0) = PROCESSING"
    by (simp_all add: exStarted_queue)
  from concurrency_ceiling[OF exStarted_instant] m c p exStarted_instant show ?thesis by simp
qed


text \<open>
  Claim C7. For a retryable failure whose classified error carries a suggested
  \<open>retryAfter\<close> (a rate-limit error: 5000 ms), the delay before the item re-enters
  \<open>PENDING\<close> equals that \<open>retryAfter\<close>.

  The queue classifies \<open>''429 Too Many Requests''\<close> as retryable with
  \<open>retryAfter = 5000\<close> and then schedules the retry after 1000 ms: its
  \<open>calculateRetryDelay\<close> never reads \<open>retryAfter\<close>.
  \<open>GeminiService.calculateRetryDelay\<close> returns the 5000.
\<close>

theorem retry_after_ignored:
  "retryable (createApiError (rawError ''429 Too Many Requests'')) = Some True \<and>
   retryAfter (createApiError (rawError ''429 Too Many Requests'')) = Some 5000 \<and>
   status (fst (handleRequestError exItem (rawError ''429 Too Many Requests'') 5 emptyStats)) = RETRYING \<and>
   snd (snd (handleRequestError exItem (rawError ''429 Too Many Requests'') 5 emptyStats)) = Some 1000 \<and>
   calculateRetryDelay_gemini 5000 0 (Some 5000) = 5000"
  by (simp add: classify_429 handleRequestError_def Let_def exItem_simps calculateRetryDelay_def
        pow2_small calculateRetryDelay_gemini_def)


text \<open>
  Claim C9. A raw error whose message indicates a server-side failure is classified as
  \<open>SERVER_ERROR\<close> with \<open>retryable = true\<close>, so the queue retries it.

  The queue's \<open>createApiError\<close> has no branch for it: \<open>''500 Internal Server Error''\<close>
  becomes \<open>UNKNOWN\<close>, not retryable, and the item fails on the first occurrence.
  \<open>OllamaService\<close> classifies the same message as a retryable \<open>SERVER_ERROR\<close>.
\<close>

theorem server_error_unclassified:
  "etype (createApiError (rawError ''500 Internal Server Error'')) = Some UNKNOWN \<and>
   retryable (createApiError (rawError ''500 Internal Server Error'')) = Some False \<and>
   status (fst (handleRequestError exItem (rawError ''500 Internal Server Error'') 5 emptyStats)) = FAILED \<and>
   snd (snd (handleRequestError exItem (rawError ''500 Internal Server Error'') 5 emptyStats)) = None \<and>
   getErrorType_ollama (rawError ''500 Internal Server Error'') = SERVER_ERROR \<and>
   isRetryableError_ollama (rawError ''500 Internal Server Error'')"
  by (simp add: classify_500 handleRequestError_def Let_def exItem_simps
        getErrorType_ollama_def isRetryableError_ollama_def lower_500 message_rawError)



section \<open>The claims about the cache service\<close>




text \<open>
  Claim C8, as amended. When a \<open>set\<close> would push \<open>totalSize\<close> over \<open>maxSize\<close>, the
  sweep sorts the stored entries by \<open>lastAccessedAt\<close> ascending, entries with the same
  time in insertion order, and removes the first \<open>m\<close> entries of that order, where \<open>m\<close>
  is at least \<open>ceil(0.2 * n)\<close>, and exactly \<open>ceil(0.2 * n)\<close> when none of the
  snapshots saved after its removals is longer than \<open>MAX_STORAGE_SIZE\<close>. So every evicted
  entry was accessed no later than every surviving entry. If the write still exceeds the
  budget after the sweep, \<open>set\<close> returns false and stores nothing; otherwise it stores
  the item in the swept cache.
\<close>

theorem lru_sweep_amended:
  assumes "distinctKeys c" and "wouldExceedStorageLimit (calculateSize env d) c"
  shows "\<exists>c1 m. cleanupOldItems_fuel (fuel c) env c = Some c1 \<and>
           memoryCache c1 = evictPrefix m (memoryCache c) \<and>
           removeCount (length (memoryCache c)) \<le> m \<and> m \<le> length (memoryCache c) \<and>
           length (memoryCache c1) = length (memoryCache c) - m \<and>
           ((\<forall>j. 1 \<le> j \<and> j \<le> removeCount (length (memoryCache c)) \<longrightarrow>
                 snapshotFits env (evictPrefix j (memoryCache c))) \<longrightarrow>
              m = removeCount (length (memoryCache c))) \<and>
           sorted_wrt (\<lambda>a b. lastAccessed a \<le> lastAccessed b) (byLastAccessed (memoryCache c)) \<and>
           set (memoryCache c) = set (take m (byLastAccessed (memoryCache c))) \<union> set (memoryCache c1) \<and>
           (\<forall>e\<in>set (take m (byLastAccessed (memoryCache c))). \<forall>s\<in>set (memoryCache c1).
               lastAccessed e \<le> lastAccessed s) \<and>
           (wouldExceedStorageLimit (calculateSize env d) c1 \<longrightarrow>
              set_cache env k d ttl now c = Some (c1, False)) \<and>
           (\<not> wouldExceedStorageLimit (calculateSize env d) c1 \<longrightarrow>
              set_cache env k d ttl now c =
                storeAndSave (fuel c) env k
                  (newCacheItem k d now (now + ttlOrDefault ttl c) (calculateSize env d)) c1)"
proof -
  let ?xs = "memoryCache c"
  let ?r = "removeCount (length ?xs)"
  let ?L = "byLastAccessed ?xs"
  from assms(1) have dm: "distinct (map fst ?xs)" by (simp add: distinctKeys_def)
  then have dx: "distinct ?xs" by (rule distinct_map[THEN iffD1, THEN conjunct1])
  from cleanupOldItems_fuel_total[OF fuel_gt, where env = env and c = c] obtain c1 where
    c1: "cleanupOldItems_fuel (fuel c) env c = Some c1" by blast
  from cleanup_prefix[OF assms(1) c1] obtain m where
    m: "?r \<le> m" "m \<le> length ?xs" "memoryCache c1 = evictPrefix m ?xs" by blast
  have len: "length (memoryCache c1) = length ?xs - m"
    by (simp add: m(3) length_evictPrefix[OF dx])
  have exact: "m = ?r"
    if fits: "\<forall>j. 1 \<le> j \<and> j \<le> ?r \<longrightarrow> snapshotFits env (evictPrefix j ?xs)"
  proof -
    from c1 have "forEach (\<lambda>k c'. map_option fst (remove_fuel (fuel c) env k c'))
           (map fst (drop 0 (take ?r ?L))) c = Some c1"
      by (simp add: cleanupOldItems_fuel.simps sortedItems_eq)
    from sweep_loop_exact[OF dm removeCount_le fits _ _ this]
    have "memoryCache c1 = evictPrefix ?r ?xs" by (simp add: evictPrefix_0)
    then have "length ?xs - m = length ?xs - ?r"
      using len by (simp add: length_evictPrefix[OF dx])
    with m(1,2) show ?thesis using removeCount_le[of "length ?xs"] by linarith
  qed
  have parts: "set ?xs = set (take m ?L) \<union> set (memoryCache c1)"
  proof -
    have "set ?L = set (take m ?L) \<union> set (drop m ?L)"
      by (metis append_take_drop_id set_append)
    then show ?thesis
      by (simp add: m(3) set_evictPrefix[OF dx] byLastAccessed_basics)
  qed
  have order: "\<forall>e\<in>set (take m ?L). \<forall>s\<in>set (memoryCache c1). lastAccessed e \<le> lastAccessed s"
    using evicted_before_survivors[OF dx] by (simp add: m(3))
  have rej: "set_cache env k d ttl now c = Some (c1, False)"
    if "wouldExceedStorageLimit (calculateSize env d) c1"
    using that assms(2) c1 by (simp add: set_cache_def Let_def)
  have acc: "set_cache env k d ttl now c =
                storeAndSave (fuel c) env k
                  (newCacheItem k d now (now + ttlOrDefault ttl c) (calculateSize env d)) c1"
    if "\<not> wouldExceedStorageLimit (calculateSize env d) c1"
    using that assms(2) c1 by (simp add: set_cache_def Let_def)
  from c1 m len exact ordered_byLastAccessed[of ?xs] parts order rej acc show ?thesis
    by (intro exI[of _ c1] exI[of _ m]) blast
qed

text \<open>For the sixth value on the cache that holds five.\<close>

theorem lru_sweep_amended_witness:
  "distinctKeys tieCache \<and>
   wouldExceedStorageLimit (calculateSize asciiPlatform tieValue) tieCache \<and>
   removeCount (length (memoryCache tieCache)) = 1 \<and>
   snapshotFits asciiPlatform (evictPrefix 1 (memoryCache tieCache)) \<and>
   (\<exists>c1. cleanupOldItems_fuel (fuel tieCache) asciiPlatform tieCache = Some c1 \<and>
         memoryCache c1 = evictPrefix 1 (memoryCache tieCache) \<and>
         length (memoryCache c1) = 4 \<and>
         (\<forall>e\<in>set (take 1 (byLastAccessed (memoryCache tieCache))). \<forall>s\<in>set (memoryCache c1).
             lastAccessed e \<le> lastAccessed s) \<and>
         \<not> wouldExceedStorageLimit (calculateSize asciiPlatform tieValue) c1 \<and>
         set_cache asciiPlatform ''k6'' tieValue None 2000 tieCache =
           storeAndSave (fuel tieCache) asciiPlatform ''k6''
             (newCacheItem ''k6'' tieValue 2000 (2000 + ttlOrDefault None tieCache)
                (calculateSize asciiPlatform tieValue)) c1)"
proof -
  have r: "removeCount (length (memoryCache tieCache)) = 1"
    by (simp add: tie_length removeCount_def)
  have e1: "evictPrefix 1 (memoryCache tieCache) = drop 1 tieEntries"
    by (simp add: evictPrefix_def tie_sorted)
       (simp add: tieCache_def tieCacheWith_def tieEntries_def tieItem_def)
  have f: "snapshotFits asciiPlatform (evictPrefix 1 (memoryCache tieCache))"
    unfolding e1
    by (simp add: snapshotFits_def platform_simps MAX_STORAGE_SIZE_def tieEntries_def tieItem_def
          newCacheItem_def tieValue_def)
  have fits: "\<forall>j. 1 \<le> j \<and> j \<le> removeCount (length (memoryCache tieCache)) \<longrightarrow>
                 snapshotFits asciiPlatform (evictPrefix j (memoryCache tieCache))"
    using f r by (auto simp: le_antisym)
  from lru_sweep_amended[OF tie_distinct tie_exceeds, of "''k6''" None 2000]
  obtain c1 m where c1: "cleanupOldItems_fuel (fuel tieCache) asciiPlatform tieCache = Some c1"
    and mc: "memoryCache c1 = evictPrefix m (memoryCache tieCache)"
    and len: "length (memoryCache c1) = length (memoryCache tieCache) - m"
    and ex: "(\<forall>j. 1 \<le> j \<and> j \<le> removeCount (length (memoryCache tieCache)) \<longrightarrow>
                 snapshotFits asciiPlatform (evictPrefix j (memoryCache tieCache))) \<longrightarrow>
              m = removeCount (length (memoryCache tieCache))"
    and ord: "\<forall>e\<in>set (take m (byLastAccessed (memoryCache tieCache))). \<forall>s\<in>set (memoryCache c1).
               lastAccessed e \<le> lastAccessed s"
    and acc: "\<not> wouldExceedStorageLimit (calculateSize asciiPlatform tieValue) c1 \<longrightarrow>
              set_cache asciiPlatform ''k6'' tieValue None 2000 tieCache =
                storeAndSave (fuel tieCache) asciiPlatform ''k6''
                  (newCacheItem ''k6'' tieValue 2000 (2000 + ttlOrDefault None tieCache)
                     (calculateSize asciiPlatform tieValue)) c1"
    by blast
  from ex fits r have m1: "m = 1" by simp
  from c1 have "c1 = tieSwept" by (simp add: tie_fuel tie_sweep)
  then have nx: "\<not> wouldExceedStorageLimit (calculateSize asciiPlatform tieValue) c1"
    by (simp add: tie_size wouldExceedStorageLimit_def tieSwept_def tieCacheWith_def tieConfig_def
          initialStats_def tieEntries_def)
  from c1 mc len ord acc nx m1 tie_length have
    "cleanupOldItems_fuel (fuel tieCache) asciiPlatform tieCache = Some c1 \<and>
         memoryCache c1 = evictPrefix 1 (memoryCache tieCache) \<and>
         length (memoryCache c1) = 4 \<and>
         (\<forall>e\<in>set (take 1 (byLastAccessed (memoryCache tieCache))). \<forall>s\<in>set (memoryCache c1).
             lastAccessed e \<le> lastAccessed s) \<and>
         \<not> wouldExceedStorageLimit (calculateSize asciiPlatform tieValue) c1 \<and>
         set_cache asciiPlatform ''k6'' tieValue None 2000 tieCache =
           storeAndSave (fuel tieCache) asciiPlatform ''k6''
             (newCacheItem ''k6'' tieValue 2000 (2000 + ttlOrDefault None tieCache)
                (calculateSize asciiPlatform tieValue)) c1"
    by simp
  with tie_distinct tie_exceeds r f show ?thesis by blast
qed

text \<open>
  Claim C8 as stated fails where entries share a \<open>lastAccessedAt\<close>: the five entries
  were all stored at time 1000; storing a sixth evicts \<open>k1\<close>, which was not accessed
  less recently than the survivors \<open>k2\<close> to \<open>k5\<close>.
\<close>

theorem lru_tie_counterexample:
  "wouldExceedStorageLimit (calculateSize asciiPlatform tieValue) tieCache \<and>
   accessTimes tieCache =
     [(''k1'', 1000), (''k2'', 1000), (''k3'', 1000), (''k4'', 1000), (''k5'', 1000)] \<and>
   set_cache asciiPlatform ''k6'' tieValue None 2000 tieCache = Some (tieResult, True) \<and>
   accessTimes tieResult =
     [(''k2'', 1000), (''k3'', 1000), (''k4'', 1000), (''k5'', 1000), (''k6'', 2000)] \<and>
   \<not> (1000 :: int) < 1000"
  by (simp add: tie_exceeds tie_set tie_times)

text \<open>
  Claim C10. After every public operation of the cache (\<open>get\<close>, \<open>set\<close>,
  \<open>remove\<close>, \<open>clear\<close>, \<open>cleanup\<close>) the statistics agree with the stored entries:
  \<open>totalItems\<close> is the number of entries, \<open>totalSize\<close> the sum of their sizes, and
  \<open>averageItemSize\<close> their quotient, or \<open>0\<close> for no entries. Every operation returns,
  and keeps the agreement that held before it; the constructor establishes it.
\<close>

theorem stats_stay_consistent:
  assumes "distinctKeys c" "statsConsistent c"
  shows "(\<exists>r c'. get_cache env k now c = Some (r, c') \<and> distinctKeys c' \<and> statsConsistent c') \<and>
         (\<exists>c' b. set_cache env k d ttl now c = Some (c', b) \<and> distinctKeys c' \<and> statsConsistent c') \<and>
         (\<exists>c' b. remove_cache env k c = Some (c', b) \<and> distinctKeys c' \<and> statsConsistent c') \<and>
         (distinctKeys (clear_cache c) \<and> statsConsistent (clear_cache c)) \<and>
         (\<exists>c' cnt. cleanup_cache env now c = Some (c', cnt) \<and> distinctKeys c' \<and> statsConsistent c') \<and>
         (distinctKeys (newCacheService cfg stored t0 :: 'a CacheService) \<and>
          statsConsistent (newCacheService cfg stored t0 :: 'a CacheService))"
proof -
  from assms have "consistent c" by (simp add: consistent_def)
  from get_cache_ok[OF this, of env k now] set_cache_ok[OF this, of env k d ttl now]
    remove_cache_ok[OF this, of env k] clear_cache_ok[of c] cleanup_cache_ok[OF this, of env now]
    newCacheService_ok[of cfg stored t0]
  show ?thesis unfolding consistent_def by blast
qed

text \<open>On the cache that holds five values.\<close>

theorem stats_stay_consistent_witness:
  "distinctKeys tieCache \<and> statsConsistent tieCache \<and>
   (\<exists>r c'. get_cache asciiPlatform ''k1'' 2000 tieCache = Some (r, c') \<and>
           distinctKeys c' \<and> statsConsistent c') \<and>
   (\<exists>c' b. set_cache asciiPlatform ''k6'' tieValue None 2000 tieCache = Some (c', b) \<and>
           distinctKeys c' \<and> statsConsistent c') \<and>
   (\<exists>c' b. remove_cache asciiPlatform ''k1'' tieCache = Some (c', b) \<and>
           distinctKeys c' \<and> statsConsistent c') \<and>
   distinctKeys (clear_cache tieCache) \<and> statsConsistent (clear_cache tieCache) \<and>
   (\<exists>c' cnt. cleanup_cache asciiPlatform 2000 tieCache = Some (c', cnt) \<and>
           distinctKeys c' \<and> statsConsistent c') \<and>
   distinctKeys tieResult \<and> statsConsistent tieResult"
proof -
  have s: "statsConsistent tieCache"
    by (simp add: statsConsistent_def tieCache_def tieCacheWith_def tieEntries_def initialStats_def
          tieItem_def newCacheItem_def)
  note t1 = stats_stay_consistent[OF tie_distinct s, where env = asciiPlatform and now = 2000
      and d = tieValue and ttl = None and k = "''k1''"]
  note t6 = stats_stay_consistent[OF tie_distinct s, where env = asciiPlatform and now = 2000
      and d = tieValue and ttl = None and k = "''k6''"]
  from t6 have
    "\<exists>c' b. set_cache asciiPlatform ''k6'' tieValue None 2000 tieCache = Some (c', b) \<and>
           distinctKeys c' \<and> statsConsistent c'" by blast
  then have r: "distinctKeys tieResult \<and> statsConsistent tieResult"
    by (simp add: tie_set)
  from t1 t6 r tie_distinct s show ?thesis by blast
qed

end
